theory Spec2Isabelle
  imports Main "HOL-Library.Word"
begin

unbundle bit_operations_syntax

section \<open>The 6unpack archive extractor (6pack/6unpack.c)\<close>

text \<open>
  The C types are read as on an LP64 platform (Linux, macOS, the BSDs on 64-bit
  hardware): \<open>unsigned char\<close> is 8 bits wide, \<open>int\<close> is 32 bits wide in two's complement,
  \<open>unsigned long\<close> and \<open>size_t\<close> are 64 bits wide. Arithmetic on words wraps around as it
  does in C for the unsigned types; for \<open>int\<close> the wrap-around of two's complement is what
  every compiler for such a platform produces.

  A region of memory (an array, or what a pointer points to) is a function from offsets to
  bytes; the bytes a call reads through a pointer and a length are a list.
\<close>

type_synonym byte = "8 word"

type_synonym cint = "32 word"

type_synonym ulong = "64 word"

type_synonym mem = "nat \<Rightarrow> byte"

text \<open>\<open>buf + n\<close> on a pointer.\<close>

definition offset :: "mem \<Rightarrow> nat \<Rightarrow> mem" where
  "offset ptr n = (\<lambda>i. ptr (n + i))"

text \<open>
  The bytes a callee reads through the pointer \<open>buf\<close> when it is given the \<open>int\<close> length
  \<open>len\<close>: the first \<open>len\<close> bytes, and none when \<open>len \<le> 0\<close>.
\<close>

definition bytes_at :: "mem \<Rightarrow> cint \<Rightarrow> byte list" where
  "bytes_at buf len = map buf [0..<nat (sint len)]"

text \<open>What is left in a region after \<open>bs\<close> has been stored at its start.\<close>

definition store :: "mem \<Rightarrow> byte list \<Rightarrow> mem" where
  "store buf bs = (\<lambda>i. if i < length bs then bs ! i else buf i)"

subsection \<open>Adler-32 (\<open>update_adler32\<close>)\<close>

definition ADLER32_BASE :: ulong where
  "ADLER32_BASE = 65521"

text \<open>\<open>s1 += *ptr++; s2 += s1;\<close>\<close>

definition adler_byte :: "ulong \<times> ulong \<Rightarrow> byte \<Rightarrow> ulong \<times> ulong" where
  "adler_byte s b = (let s1 = fst s + ucast b; s2 = snd s + s1 in (s1, s2))"

text \<open>
  \<open>while (k >= 8) { ... k -= 8; }\<close>: eight bytes a round, as long as eight are left of the
  block. It returns the sums and the bytes of the block it has not consumed.
\<close>

fun adler_unrolled :: "ulong \<times> ulong \<Rightarrow> byte list \<Rightarrow> (ulong \<times> ulong) \<times> byte list" where
  "adler_unrolled s (b0 # b1 # b2 # b3 # b4 # b5 # b6 # b7 # bs) =
     adler_unrolled
       (adler_byte (adler_byte (adler_byte (adler_byte
         (adler_byte (adler_byte (adler_byte (adler_byte s b0) b1) b2) b3) b4) b5) b6) b7) bs"
| "adler_unrolled s bs = (s, bs)"

text \<open>\<open>while (k-- > 0) { ... }\<close>: the bytes left over, one a round.\<close>

fun adler_rest :: "ulong \<times> ulong \<Rightarrow> byte list \<Rightarrow> ulong \<times> ulong" where
  "adler_rest s [] = s"
| "adler_rest s (b # bs) = adler_rest (adler_byte s b) bs"

text \<open>One round of the outer loop on its block of \<open>k\<close> bytes, the two reductions included.\<close>

definition adler_block :: "ulong \<times> ulong \<Rightarrow> byte list \<Rightarrow> ulong \<times> ulong" where
  "adler_block s blk =
     (let (s', rest) = adler_unrolled s blk;
          (s1, s2) = adler_rest s' rest
      in (s1 mod ADLER32_BASE, s2 mod ADLER32_BASE))"

text \<open>\<open>while (len > 0) { k = len < 5552 ? len : 5552; len -= k; ... }\<close>\<close>

function adler_loop :: "ulong \<times> ulong \<Rightarrow> byte list \<Rightarrow> ulong \<times> ulong" where
  "adler_loop s bs =
     (if bs = [] then s
      else let k = min (length bs) 5552
           in adler_loop (adler_block s (take k bs)) (drop k bs))"
  by pat_completeness auto
termination
  by (relation "measure (\<lambda>(s, bs). length bs)") auto

declare adler_loop.simps [simp del]

text \<open>
  \<open>update_adler32(checksum, buf, len)\<close>, on the \<open>len\<close> bytes at \<open>buf\<close> (the empty list when
  \<open>len \<le> 0\<close>).
\<close>

definition update_adler32 :: "ulong \<Rightarrow> byte list \<Rightarrow> ulong" where
  "update_adler32 checksum buf =
     (let s1 = checksum AND 0xffff;
          s2 = drop_bit 16 checksum AND 0xffff;
          (s1', s2') = adler_loop (s1, s2) buf
      in push_bit 16 s2' + s1')"

subsection \<open>Streams (\<open>FILE *\<close> opened for reading)\<close>

text \<open>
  A stream is the bytes of its file and the read position. \<open>fread\<close> delivers the bytes that
  are left, at most as many as asked for, and moves the position past them; \<open>fseek\<close> to an
  offset from the start sets the position, also past the end of the file. Offsets are
  natural numbers: \<open>ftell\<close> returned the size of the file as a \<open>long\<close>, so a position
  of the loop plus 16 plus a 32-bit chunk size is far below \<open>2 ^ 64\<close>.
\<close>

record stream =
  stream_data :: "byte list"
  stream_pos :: nat

definition fseek_set :: "stream \<Rightarrow> nat \<Rightarrow> stream" where
  "fseek_set s n = s\<lparr>stream_pos := n\<rparr>"

definition ftell :: "stream \<Rightarrow> nat" where
  "ftell s = stream_pos s"

definition fread :: "nat \<Rightarrow> stream \<Rightarrow> byte list \<times> stream" where
  "fread n s =
     (let bs = take n (drop (stream_pos s) (stream_data s))
      in (bs, s\<lparr>stream_pos := stream_pos s + length bs\<rparr>))"

subsection \<open>\<open>detect_magic\<close>\<close>

definition sixpack_magic :: "byte list" where
  "sixpack_magic = [137, 54, 80, 75, 13, 10, 26, 10]"

text \<open>\<open>for (c = 0; c < 8; c++) if (buffer[c] != sixpack_magic[c]) return 0;  return -1;\<close>\<close>

function magic_loop :: "mem \<Rightarrow> nat \<Rightarrow> cint" where
  "magic_loop buf c =
     (if c < 8 then (if buf c \<noteq> sixpack_magic ! c then 0 else magic_loop buf (c + 1))
      else - 1)"
  by pat_completeness auto
termination
  by (relation "measure (\<lambda>(buf, c). 8 - c)") auto

declare magic_loop.simps [simp del]

text \<open>
  \<open>fseek(f, SEEK_SET, 0)\<close> has its arguments swapped; \<open>SEEK_SET\<close> is 0, so it is a seek
  to offset 0 from the start all the same. \<open>garbage\<close> is what the local array holds
  before \<open>fread\<close> fills it.
\<close>

definition detect_magic :: "mem \<Rightarrow> stream \<Rightarrow> cint \<times> stream" where
  "detect_magic garbage f0 =
     (let f1 = fseek_set f0 0;
          (bs, f2) = fread 8 f1;
          buf = store garbage bs;
          bytes_read = length bs;
          f3 = fseek_set f2 0
      in if bytes_read < 8 then (0, f3) else (magic_loop buf 0, f3))"

subsection \<open>\<open>readU16\<close>, \<open>readU32\<close> and \<open>read_chunk_header\<close>\<close>

text \<open>
  The bytes are promoted to \<open>int\<close>, shifted and added as \<open>int\<close>, and the sum is converted
  to the \<open>unsigned long\<close> the function returns: a sum with bit 31 set comes out
  sign-extended.
\<close>

definition readU16 :: "mem \<Rightarrow> ulong" where
  "readU16 ptr = scast ((ucast (ptr 0) :: cint) + push_bit 8 (ucast (ptr 1)))"

definition readU32 :: "mem \<Rightarrow> ulong" where
  "readU32 ptr =
     scast ((ucast (ptr 0) :: cint) + push_bit 8 (ucast (ptr 1)) +
            push_bit 16 (ucast (ptr 2)) + push_bit 24 (ucast (ptr 3)))"

record chunk =
  chunk_id :: cint
  chunk_options :: cint
  chunk_size :: ulong
  chunk_checksum :: ulong
  chunk_extra :: ulong

definition read_chunk_header :: "mem \<Rightarrow> stream \<Rightarrow> chunk \<times> stream" where
  "read_chunk_header garbage f0 =
     (let (bs, f1) = fread 16 f0;
          buf = store garbage bs
      in (\<lparr>chunk_id = ucast (readU16 buf AND 0xffff),
           chunk_options = ucast (readU16 (offset buf 2) AND 0xffff),
           chunk_size = readU32 (offset buf 4) AND 0xffffffff,
           chunk_checksum = readU32 (offset buf 8) AND 0xffffffff,
           chunk_extra = readU32 (offset buf 12) AND 0xffffffff\<rparr>, f1))"

subsection \<open>\<open>unpack_file\<close>\<close>

text \<open>
  What the program does not decide itself is a parameter of the run:
  \<^item> \<open>fastlz_decompress\<close>, declared in \<open>fastlz.h\<close>: from the bytes at \<open>input\<close>, \<open>length\<close>,
    whether \<open>output\<close> is a buffer (\<open>False\<close> when it is the null pointer) and \<open>maxout\<close>, the
    \<open>int\<close> it returns and the bytes it writes at the start of \<open>output\<close>;
  \<^item> \<open>malloc\<close>: the null pointer (\<open>None\<close>) or a fresh region with whatever bytes it holds,
    for each of the three places that allocate, in the pass of the main loop whose chunk
    header is at the given offset;
  \<^item> what the uninitialised local arrays hold: the 16 bytes of \<open>read_chunk_header\<close> in
    that pass, the 8 bytes of \<open>detect_magic\<close>, and \<open>buffer\<close> of \<open>unpack_file\<close>;
  \<^item> whether \<open>fopen(name, "wb")\<close> can create a file that does not exist.
  The file system is a map from names to contents, and a file name is a list of bytes.
  Output to the console (messages and the progress bar, with the variables \<open>percent\<close>
  and \<open>progress\<close> that only feed it) is left out. \<open>FREE\<close> is the macro of a build
  without \<open>TESTING\<close>: it frees and sets the pointer to null.
\<close>

datatype alloc_site = Name_buf | Compressed_buf | Decompressed_buf

record env =
  fastlz_decompress :: "byte list \<Rightarrow> cint \<Rightarrow> bool \<Rightarrow> cint \<Rightarrow> cint \<times> byte list"
  malloc :: "alloc_site \<Rightarrow> nat \<Rightarrow> ulong \<Rightarrow> mem option"
  header_garbage :: "nat \<Rightarrow> mem"
  magic_garbage :: mem
  stack_garbage :: mem
  creatable :: "byte list \<Rightarrow> bool"

text \<open>
  The variables of \<open>unpack_file\<close> that live across passes of the main loop, and the file
  system. \<open>None\<close> is the null pointer. \<open>output_file\<close> holds the bytes of the name before the
  terminating 0; \<open>f_out\<close> is the source's \<open>f\<close>, the name of the file it writes to.
\<close>

record state =
  inp :: stream
  buffer :: mem
  decompressed_size :: ulong
  total_extracted :: ulong
  output_file :: "byte list option"
  f_out :: "byte list option"
  compressed_buffer :: "mem option"
  decompressed_buffer :: "mem option"
  compressed_bufsize :: ulong
  decompressed_bufsize :: ulong
  files :: "byte list \<Rightarrow> byte list option"

datatype outcome =
    is_Continue: Continue (next_state: state)
  | is_Return: Return (returned: cint) (last_state: state)
  | is_Abort: Abort (last_state: state)

datatype status = Returned cint | Aborted

definition BLOCK_SIZE :: ulong where
  "BLOCK_SIZE = 65536"

text \<open>\<open>fwrite(ptr, 1, n, f)\<close> with the \<open>n\<close> bytes at \<open>ptr\<close>: they are appended to the file.\<close>

definition fwrite :: "byte list \<Rightarrow> state \<Rightarrow> state" where
  "fwrite bs st =
     (case f_out st of
        None \<Rightarrow> st
      | Some name \<Rightarrow>
          st\<lparr>files := (files st)(name \<mapsto> (case files st name of None \<Rightarrow> bs | Some old \<Rightarrow> old @ bs))\<rparr>)"

text \<open>\<open>fclose(f); f = 0; FREE(output_file);\<close>\<close>

definition abandon :: "state \<Rightarrow> state" where
  "abandon st = st\<lparr>f_out := None, output_file := None\<rparr>"

text \<open>
  The \<open>sz\<close> bytes a checksum is computed over after \<open>fread(buf, 1, sz, in)\<close>: the bytes
  the stream delivered, then what \<open>buf\<close> held before where the stream ends early. The
  length reaches \<open>update_adler32\<close> as an \<open>int\<close>.
\<close>

definition payload_seen :: "mem \<Rightarrow> stream \<Rightarrow> ulong \<Rightarrow> byte list" where
  "payload_seen buf s sz = bytes_at (store buf (fst (fread (unat sz) s))) (ucast sz)"

text \<open>
  The name of a file entry (lines 302-320): \<open>name_length\<close> is read at offset 8, cut down to
  \<open>chunk_size - 10\<close>, and that many bytes are copied from offset 10.
\<close>

definition entry_name_length :: "mem \<Rightarrow> ulong \<Rightarrow> cint" where
  "entry_name_length buf sz =
     (let name_length = (ucast (readU16 (offset buf 8)) :: cint)
      in if (ucast sz :: cint) - 10 <s name_length then ucast sz - 10 else name_length)"

definition entry_name :: "mem \<Rightarrow> ulong \<Rightarrow> byte list" where
  "entry_name buf sz = map (\<lambda>c. buf (10 + c)) [0..<nat (sint (entry_name_length buf sz))]"

text \<open>The file name \<open>fopen\<close> reads from the array: the bytes before the first 0.\<close>

definition c_string :: "byte list \<Rightarrow> byte list" where
  "c_string bs = takeWhile (\<lambda>b. b \<noteq> 0) bs"

text \<open>
  A file entry (lines 277-375), for the chunk \<open>c\<close> whose header is at \<open>p\<close>. The handle \<open>f\<close> is
  closed without being reset; it is assigned again before the next use.
\<close>

definition file_entry_chunk :: "env \<Rightarrow> nat \<Rightarrow> chunk \<Rightarrow> state \<Rightarrow> outcome" where
  "file_entry_chunk e p c st =
     (let st1 = st\<lparr>output_file := None\<rparr>;
          (bs, in1) = fread (unat (chunk_size c)) (inp st1);
          buf = store (buffer st1) bs;
          st2 = st1\<lparr>inp := in1, buffer := buf\<rparr>;
          checksum = update_adler32 1 (payload_seen (buffer st1) (inp st1) (chunk_size c))
      in if checksum \<noteq> chunk_checksum c then Return (- 1) st2
         else
           let st3 = st2\<lparr>decompressed_size := readU32 buf, total_extracted := 0\<rparr>;
               name_length = entry_name_length buf (chunk_size c)
           in case malloc e Name_buf p (scast (name_length + 1)) of
                None \<Rightarrow> Abort st3
              | Some region \<Rightarrow>
                  let name = entry_name buf (chunk_size c)
                  in if files st3 (c_string name) \<noteq> None
                     then Continue (st3\<lparr>output_file := None, f_out := None\<rparr>)
                     else if creatable e (c_string name)
                     then Continue (st3\<lparr>output_file := Some name, f_out := Some (c_string name),
                                        files := (files st3)(c_string name \<mapsto> [])\<rparr>)
                     else Continue (st3\<lparr>output_file := None, f_out := None\<rparr>))"

text \<open>
  The loop that copies a stored chunk (lines 391-404); it returns the state and
  \<open>checksum\<close>.
\<close>

function stored_loop :: "state \<Rightarrow> ulong \<Rightarrow> ulong \<Rightarrow> state \<times> ulong" where
  "stored_loop st remaining checksum =
     (let r = (if BLOCK_SIZE < remaining then BLOCK_SIZE else remaining);
          (bs, in1) = fread (unat r) (inp st);
          bytes_read = length bs
      in if bytes_read = 0 then (st\<lparr>inp := in1\<rparr>, checksum)
         else
           let buf = store (buffer st) bs;
               st1 = fwrite (map buf [0..<bytes_read]) (st\<lparr>inp := in1, buffer := buf\<rparr>);
               checksum1 = update_adler32 checksum (bytes_at buf (of_nat bytes_read))
           in stored_loop st1 (remaining - of_nat bytes_read) checksum1)"
  by pat_completeness auto
termination
  by (relation "measure (\<lambda>(st, remaining, checksum).
        length (stream_data (inp st)) - stream_pos (inp st))")
     (auto simp: fread_def fwrite_def Let_def split: option.splits)

declare stored_loop.simps [simp del]

text \<open>
  A stored chunk (\<open>case 0\<close>, lines 386-419): the bytes are written before the checksum is
  compared.
\<close>

definition stored_chunk :: "chunk \<Rightarrow> state \<Rightarrow> outcome" where
  "stored_chunk c st =
     (let st1 = st\<lparr>total_extracted := total_extracted st + chunk_size c\<rparr>;
          (st2, checksum) = stored_loop st1 (chunk_size c) 1
      in Continue (if checksum \<noteq> chunk_checksum c then abandon st2 else st2))"

text \<open>
  The two buffers are enlarged where the chunk needs more (lines 423-441); the size is
  recorded before \<open>malloc\<close> is called, and what \<open>malloc\<close> returns is not looked at here.
\<close>

definition grow_buffers :: "env \<Rightarrow> nat \<Rightarrow> chunk \<Rightarrow> state \<Rightarrow> state" where
  "grow_buffers e p c st =
     (let st1 = (if compressed_bufsize st < chunk_size c
                 then st\<lparr>compressed_bufsize := chunk_size c,
                         compressed_buffer := malloc e Compressed_buf p (chunk_size c)\<rparr>
                 else st)
      in if decompressed_bufsize st1 < chunk_extra c
         then st1\<lparr>decompressed_bufsize := chunk_extra c,
                  decompressed_buffer := malloc e Decompressed_buf p (chunk_extra c)\<rparr>
         else st1)"

text \<open>
  The call of \<open>fastlz_decompress\<close> (lines 470-475): its arguments are converted to \<open>int\<close>, the
  \<open>int\<close> it returns to the \<open>unsigned long\<close> of \<open>remaining\<close>; what it writes lands at the start
  of the output buffer, at most \<open>maxout\<close> bytes of it.
\<close>

definition decompress_call :: "env \<Rightarrow> chunk \<Rightarrow> mem \<Rightarrow> mem option \<Rightarrow> ulong \<times> mem option" where
  "decompress_call e c cbuf dbuf =
     (let (ret, written) =
            fastlz_decompress e (bytes_at cbuf (ucast (chunk_size c))) (ucast (chunk_size c))
              (dbuf \<noteq> None) (ucast (chunk_extra c))
      in (scast ret,
          map_option
            (\<lambda>region. store region (take (nat (sint (ucast (chunk_extra c) :: cint))) written))
            dbuf))"

text \<open>A compressed chunk (\<open>case 1\<close>, lines 422-495).\<close>

definition compressed_chunk :: "env \<Rightarrow> nat \<Rightarrow> chunk \<Rightarrow> state \<Rightarrow> outcome" where
  "compressed_chunk e p c st =
     (let st2 = grow_buffers e p c st
      in case compressed_buffer st2 of
           None \<Rightarrow> Abort st2
         | Some cbuf \<Rightarrow>
             let (bs, in1) = fread (unat (chunk_size c)) (inp st2);
                 cbuf1 = store cbuf bs;
                 checksum = update_adler32 1 (payload_seen cbuf (inp st2) (chunk_size c));
                 st3 = st2\<lparr>inp := in1, compressed_buffer := Some cbuf1,
                          total_extracted := total_extracted st2 + chunk_extra c\<rparr>
             in if checksum \<noteq> chunk_checksum c then Continue (abandon st3)
                else
                  let (remaining, dbuf1) = decompress_call e c cbuf1 (decompressed_buffer st3);
                      st4 = st3\<lparr>decompressed_buffer := dbuf1\<rparr>
                  in if remaining \<noteq> chunk_extra c then Continue (abandon st4)
                     else case decompressed_buffer st4 of
                            None \<Rightarrow> Abort st4
                          | Some dbuf \<Rightarrow>
                              Continue (fwrite (map dbuf [0..<unat (chunk_extra c)]) st4))"

text \<open>
  A data chunk for the file that is open (the \<open>switch\<close> on \<open>chunk_options\<close>, lines 383-505).
\<close>

definition file_data_chunk :: "env \<Rightarrow> nat \<Rightarrow> chunk \<Rightarrow> state \<Rightarrow> outcome" where
  "file_data_chunk e p c st =
     (if chunk_options c = 0 then stored_chunk c st
      else if chunk_options c = 1 then compressed_chunk e p c st
      else Continue (abandon st))"

text \<open>
  One pass of the main loop after the test for the end of the file (lines 267-531): the
  header, the two blocks, and the seek to the next header.
\<close>

definition unpack_step :: "env \<Rightarrow> state \<Rightarrow> outcome" where
  "unpack_step e st =
     (let p = ftell (inp st);
          (c, in1) = read_chunk_header (header_garbage e p) (inp st);
          st0 = st\<lparr>inp := in1\<rparr>;
          r1 = (if chunk_id c = 1 \<and> 10 < chunk_size c \<and> chunk_size c < BLOCK_SIZE
                then file_entry_chunk e p c st0 else Continue st0)
      in case r1 of
           Continue st1 \<Rightarrow>
             (case (if chunk_id c = 17 \<and> f_out st1 \<noteq> None \<and> output_file st1 \<noteq> None \<and>
                       decompressed_size st1 \<noteq> 0
                    then file_data_chunk e p c st1 else Continue st1) of
                Continue st2 \<Rightarrow>
                  Continue (st2\<lparr>inp := fseek_set (inp st2) (p + 16 + unat (chunk_size c))\<rparr>)
              | r2 \<Rightarrow> r2)
         | r1 \<Rightarrow> r1)"

text \<open>What follows the main loop (lines 536-550); the function then returns 0.\<close>

definition finish :: "state \<Rightarrow> state" where
  "finish st = st\<lparr>compressed_buffer := None, decompressed_buffer := None, output_file := None\<rparr>"

text \<open>
  The main loop (lines 258-532). It ends because every pass that goes on leaves the stream
  at least 16 bytes further.
\<close>

function unpack_loop :: "env \<Rightarrow> nat \<Rightarrow> state \<Rightarrow> status \<times> state" where
  "unpack_loop e fsize st =
     (if fsize \<le> ftell (inp st) then (Returned 0, finish st)
      else case unpack_step e st of
             Continue st' \<Rightarrow> unpack_loop e fsize st'
           | Return r st' \<Rightarrow> (Returned r, st')
           | Abort st' \<Rightarrow> (Aborted, st'))"
  by pat_completeness auto
termination
proof (relation "measure (\<lambda>(e, fsize, st). fsize - stream_pos (inp st))")
  show "wf (measure (\<lambda>(e, fsize, st). fsize - stream_pos (inp st)))"
    by simp
next
  fix e :: env and fsize :: nat and st st' :: state
  assume "\<not> fsize \<le> ftell (inp st)" and "unpack_step e st = Continue st'"
  then have "stream_pos (inp st) < fsize" and "stream_pos (inp st) < stream_pos (inp st')"
    by (auto simp: unpack_step_def Let_def ftell_def fseek_set_def
             split: prod.splits outcome.splits if_splits)
  then show "((e, fsize, st'), (e, fsize, st)) \<in>
             measure (\<lambda>(e, fsize, st). fsize - stream_pos (inp st))"
    by simp
qed

declare unpack_loop.simps [simp del]

text \<open>The main loop, cut off after \<open>n\<close> passes (\<open>None\<close>: it has not ended by then).\<close>

fun unpack_fuel :: "nat \<Rightarrow> env \<Rightarrow> nat \<Rightarrow> state \<Rightarrow> (status \<times> state) option" where
  "unpack_fuel 0 e fsize st = None"
| "unpack_fuel (Suc n) e fsize st =
     (if fsize \<le> ftell (inp st) then Some (Returned 0, finish st)
      else case unpack_step e st of
             Continue st' \<Rightarrow> unpack_fuel n e fsize st'
           | Return r st' \<Rightarrow> Some (Returned r, st')
           | Abort st' \<Rightarrow> Some (Aborted, st'))"

text \<open>
  \<open>unpack_file\<close>: what it returns (or that it ended in \<open>abort()\<close>), and the file system it
  leaves.
\<close>

definition unpack_file ::
  "env \<Rightarrow> (byte list \<Rightarrow> byte list option) \<Rightarrow> byte list \<Rightarrow> status \<times> (byte list \<Rightarrow> byte list option)" where
  "unpack_file e fs input_file =
     (case fs (c_string input_file) of
        None \<Rightarrow> (Returned (- 1), fs)
      | Some archive \<Rightarrow>
          let in0 = \<lparr>stream_data = archive, stream_pos = 0\<rparr>;
              fsize = ftell (fseek_set in0 (length archive));
              in1 = fseek_set in0 0;
              (found, in2) = detect_magic (magic_garbage e) in1
          in if found = 0 then (Returned (- 1), fs)
             else
               let in3 = fseek_set in2 8;
                   st = \<lparr>inp = in3, buffer = stack_garbage e, decompressed_size = 0,
                         total_extracted = 0, output_file = None, f_out = None,
                         compressed_buffer = None, decompressed_buffer = None,
                         compressed_bufsize = 0, decompressed_bufsize = 0, files = fs\<rparr>;
                   (result, st') = unpack_loop e fsize st
               in (result, files st'))"

section \<open>What the claims compare the program with\<close>

text \<open>
  Adler-32 as RFC 1950 (section 8.2 and its sample code) defines it: \<open>s1\<close> starts at 1 and
  adds every byte, \<open>s2\<close> starts at 0 and adds every value \<open>s1\<close> takes, both modulo 65521.
\<close>

fun adler32_sums :: "nat \<times> nat \<Rightarrow> byte list \<Rightarrow> nat \<times> nat" where
  "adler32_sums s [] = s"
| "adler32_sums s (b # bs) =
     (let s1 = (fst s + unat b) mod 65521;
          s2 = (snd s + s1) mod 65521
      in adler32_sums (s1, s2) bs)"

definition adler32 :: "byte list \<Rightarrow> nat \<times> nat" where
  "adler32 bs = adler32_sums (1, 0) bs"

text \<open>
  Modelled from the spec: the writer of chunk headers belongs to the packer, which is not
  among the sources. The spec fixes the layout: \<open>id\<close> in bytes 0-1, \<open>options\<close> in bytes
  2-3, \<open>size\<close> in bytes 4-7, \<open>checksum\<close> in bytes 8-11, \<open>extra\<close> in bytes 12-15, each
  little-endian.
\<close>

definition le16 :: "cint \<Rightarrow> byte list" where
  "le16 v = [ucast v, ucast (drop_bit 8 v)]"

definition le32 :: "ulong \<Rightarrow> byte list" where
  "le32 v = [ucast v, ucast (drop_bit 8 v), ucast (drop_bit 16 v), ucast (drop_bit 24 v)]"

definition encode_chunk_header :: "chunk \<Rightarrow> byte list" where
  "encode_chunk_header c =
     le16 (chunk_id c) @ le16 (chunk_options c) @
     le32 (chunk_size c) @ le32 (chunk_checksum c) @ le32 (chunk_extra c)"

text \<open>
  The payload of a chunk, for a stream positioned behind the chunk's header: the \<open>size\<close>
  bytes that follow the header, or as many of them as the stream has. The stream holds the
  payload when all \<open>size\<close> bytes are there.
\<close>

definition chunk_payload :: "stream \<Rightarrow> ulong \<Rightarrow> byte list" where
  "chunk_payload s sz = take (unat sz) (drop (stream_pos s) (stream_data s))"

definition holds_payload :: "stream \<Rightarrow> ulong \<Rightarrow> bool" where
  "holds_payload s sz \<longleftrightarrow> stream_pos s + unat sz \<le> length (stream_data s)"

text \<open>
  What the copying loop of a stored chunk has done when it ends, in terms of the bytes
  of the chunk that the stream holds.
\<close>

definition stored_payload :: "state \<Rightarrow> ulong \<Rightarrow> byte list" where
  "stored_payload st remaining =
     take (unat remaining) (drop (stream_pos (inp st)) (stream_data (inp st)))"

text \<open>
  An integrity error of a data chunk, for the state in which its payload is about to
  be read: the checksum of a stored chunk's bytes differs from the header's; or, for a
  compressed chunk whose input buffer is there, the checksum differs or the length
  \<open>fastlz_decompress\<close> returns is not \<open>extra\<close>; or \<open>options\<close> is neither 0 nor 1.
\<close>

definition data_chunk_error :: "env \<Rightarrow> nat \<Rightarrow> chunk \<Rightarrow> state \<Rightarrow> bool" where
  "data_chunk_error e p c st \<longleftrightarrow>
     (if chunk_options c = 0
      then update_adler32 1 (stored_payload st (chunk_size c)) \<noteq> chunk_checksum c
      else if chunk_options c = 1
      then (case compressed_buffer (grow_buffers e p c st) of
              None \<Rightarrow> False
            | Some cbuf \<Rightarrow>
                update_adler32 1 (payload_seen cbuf (inp st) (chunk_size c)) \<noteq> chunk_checksum c \<or>
                fst (decompress_call e c
                       (store cbuf (fst (fread (unat (chunk_size c)) (inp st))))
                       (decompressed_buffer (grow_buffers e p c st))) \<noteq> chunk_extra c)
      else True)"

text \<open>
  The integrity errors of a data chunk as the spec lists them, read on the payload of the
  chunk: the Adler-32 checksum of the payload is not the \<open>checksum\<close> of the header (stored
  or compressed chunk); the length that \<open>fastlz_decompress\<close> returns for the payload is
  not \<open>extra\<close> (compressed chunk); \<open>options\<close> is neither 0 nor 1.
\<close>

definition integrity_error :: "env \<Rightarrow> nat \<Rightarrow> chunk \<Rightarrow> state \<Rightarrow> bool" where
  "integrity_error e p c st \<longleftrightarrow>
     (if chunk_options c = 0
      then update_adler32 1 (chunk_payload (inp st) (chunk_size c)) \<noteq> chunk_checksum c
      else if chunk_options c = 1
      then update_adler32 1 (chunk_payload (inp st) (chunk_size c)) \<noteq> chunk_checksum c \<or>
           scast (fst (fastlz_decompress e (chunk_payload (inp st) (chunk_size c))
                         (ucast (chunk_size c))
                         (decompressed_buffer (grow_buffers e p c st) \<noteq> None)
                         (ucast (chunk_extra c)))) \<noteq> chunk_extra c
      else True)"

text \<open>What a data chunk adds to \<open>total_extracted\<close>, from its header alone.\<close>

definition data_chunk_count :: "chunk \<Rightarrow> ulong" where
  "data_chunk_count c =
     (if chunk_options c = 0 then chunk_size c
      else if chunk_options c = 1 then chunk_extra c
      else 0)"

text \<open>
  The number of bytes a data chunk gets written to the open file: for a stored chunk
  the bytes of its payload that the stream holds, for a compressed chunk \<open>extra\<close> bytes
  when it has no integrity error, and none otherwise.
\<close>

definition data_chunk_written :: "env \<Rightarrow> nat \<Rightarrow> chunk \<Rightarrow> state \<Rightarrow> nat" where
  "data_chunk_written e p c st =
     (if chunk_options c = 0 then length (stored_payload st (chunk_size c))
      else if chunk_options c = 1 \<and> \<not> data_chunk_error e p c st then unat (chunk_extra c)
      else 0)"

section \<open>Example runs\<close>

text \<open>
  An environment in which every allocation succeeds and every file can be created, and
  the archive of one file \<open>hello.txt\<close> with the five bytes \<open>world\<close> in one stored chunk.
\<close>

definition env0 :: env where
  "env0 = \<lparr>fastlz_decompress = (\<lambda>input len out maxout. (0, [])),
            malloc = (\<lambda>site p n. Some (\<lambda>i. 0)),
            header_garbage = (\<lambda>p i. 0),
            magic_garbage = (\<lambda>i. 0),
            stack_garbage = (\<lambda>i. 0),
            creatable = (\<lambda>name. True)\<rparr>"

definition hello_archive :: "byte list" where
  "hello_archive =
     [137, 54, 80, 75, 13, 10, 26, 10,
      1, 0, 0, 0, 19, 0, 0, 0, 177, 3, 196, 18, 0, 0, 0, 0,
      5, 0, 0, 0, 0, 0, 0, 0, 9, 0, 104, 101, 108, 108, 111, 46, 116, 120, 116,
      17, 0, 0, 0, 5, 0, 0, 0, 41, 2, 166, 6, 5, 0, 0, 0,
      119, 111, 114, 108, 100]"

definition hello_fs :: "byte list \<Rightarrow> byte list option" where
  "hello_fs = Map.empty([97] \<mapsto> hello_archive)"

text \<open>The state in which the main loop starts on that archive.\<close>

definition hello_start :: state where
  "hello_start =
     \<lparr>inp = \<lparr>stream_data = hello_archive, stream_pos = 8\<rparr>, buffer = (\<lambda>i. 0),
      decompressed_size = 0, total_extracted = 0, output_file = None, f_out = None,
      compressed_buffer = None, decompressed_buffer = None,
      compressed_bufsize = 0, decompressed_bufsize = 0, files = hello_fs\<rparr>"



text \<open>
  An archive whose file entry gives \<open>name_length = 300\<close> in a payload of 19 bytes, which
  leaves room for 9 bytes of name.
\<close>

definition long_name_archive :: "byte list" where
  "long_name_archive =
     [137, 54, 80, 75, 13, 10, 26, 10,
      1, 0, 0, 0, 19, 0, 0, 0, 213, 3, 79, 20, 0, 0, 0, 0,
      5, 0, 0, 0, 0, 0, 0, 0, 44, 1, 104, 101, 108, 108, 111, 46, 116, 120, 116]"

definition long_name_start :: state where
  "long_name_start = hello_start\<lparr>inp := \<lparr>stream_data = long_name_archive, stream_pos = 8\<rparr>\<rparr>"

text \<open>
  The state in which the main loop goes on after the file entry of the example, with
  \<open>hello.txt\<close> open and the bytes of a data chunk (header and payload) next in the stream.
\<close>

definition hello_name :: "byte list" where
  "hello_name = [104, 101, 108, 108, 111, 46, 116, 120, 116]"

definition hello_open :: "byte list \<Rightarrow> state" where
  "hello_open data_chunk =
     \<lparr>inp = \<lparr>stream_data = take 43 hello_archive @ data_chunk, stream_pos = 43\<rparr>,
      buffer = (\<lambda>i. 0), decompressed_size = 5, total_extracted = 0,
      output_file = Some hello_name, f_out = Some hello_name,
      compressed_buffer = None, decompressed_buffer = None,
      compressed_bufsize = 0, decompressed_bufsize = 0,
      files = hello_fs(hello_name \<mapsto> [])\<rparr>"

text \<open>The data chunk of the example: stored, with the right checksum.\<close>

definition stored_world_chunk :: "byte list" where
  "stored_world_chunk =
     [17, 0, 0, 0, 5, 0, 0, 0, 41, 2, 166, 6, 5, 0, 0, 0, 119, 111, 114, 108, 100]"

text \<open>
  Data chunks with the payload \<open>world\<close>: stored with a wrong checksum; with \<open>options = 2\<close>;
  compressed with the right checksum of the payload (which the decompressor of the
  example environment answers with 0, not with \<open>extra = 5\<close>); compressed with a wrong
  checksum.
\<close>

definition bad_stored_chunk :: "byte list" where
  "bad_stored_chunk = [17, 0, 0, 0, 5, 0, 0, 0, 42, 2, 166, 6, 5, 0, 0, 0, 119, 111, 114, 108, 100]"

definition unknown_options_chunk :: "byte list" where
  "unknown_options_chunk =
     [17, 0, 2, 0, 5, 0, 0, 0, 41, 2, 166, 6, 5, 0, 0, 0, 119, 111, 114, 108, 100]"

definition bad_length_chunk :: "byte list" where
  "bad_length_chunk = [17, 0, 1, 0, 5, 0, 0, 0, 41, 2, 166, 6, 5, 0, 0, 0, 119, 111, 114, 108, 100]"

definition bad_compressed_chunk :: "byte list" where
  "bad_compressed_chunk =
     [17, 0, 1, 0, 5, 0, 0, 0, 42, 2, 166, 6, 5, 0, 0, 0, 119, 111, 114, 108, 100]"

text \<open>
  The example environment, except that no memory is to be had for the decompressed
  buffer; and the archive of the example with its data chunk compressed (payload
  \<open>world\<close>, right checksum, \<open>extra = 5\<close>).
\<close>

definition env_nomem :: env where
  "env_nomem =
     env0\<lparr>malloc := (\<lambda>site p n. if site = Decompressed_buf then None else Some (\<lambda>i. 0))\<rparr>"

definition compressed_archive :: "byte list" where
  "compressed_archive = take 43 hello_archive @ bad_length_chunk"

text \<open>
  The example archive followed by a second file entry that the stream holds in part
  only: its header announces 19 bytes with the checksum of the entry of a file
  \<open>jello.txt\<close>, and the stream ends after 11 of them, the last being the \<open>j\<close>.
\<close>

definition truncated_archive :: "byte list" where
  "truncated_archive =
     take 43 hello_archive @
     [1, 0, 0, 0, 19, 0, 0, 0, 179, 3, 214, 18, 0, 0, 0, 0,
      5, 0, 0, 0, 0, 0, 0, 0, 9, 0, 106]"

definition jello_name :: "byte list" where
  "jello_name = [106, 101, 108, 108, 111, 46, 116, 120, 116]"

definition truncated_start :: state where
  "truncated_start = hello_start\<lparr>inp := \<lparr>stream_data = truncated_archive, stream_pos = 8\<rparr>\<rparr>"

text \<open>
  An archive of one file entry whose name is the five bytes \<open>a\<close>, \<open>b\<close>, 0, \<open>c\<close>, \<open>d\<close>, with
  \<open>name_length = 5\<close> and the right checksum.
\<close>

definition nul_name_archive :: "byte list" where
  "nul_name_archive =
     [137, 54, 80, 75, 13, 10, 26, 10,
      1, 0, 0, 0, 15, 0, 0, 0, 149, 1, 20, 5, 0, 0, 0, 0,
      5, 0, 0, 0, 0, 0, 0, 0, 5, 0, 97, 98, 0, 99, 100]"

definition nul_name_start :: state where
  "nul_name_start = hello_start\<lparr>inp := \<lparr>stream_data = nul_name_archive, stream_pos = 8\<rparr>\<rparr>"

text \<open>
  A compressed data chunk with no payload (\<open>size = 0\<close>) and the checksum 0, where the
  checksum of no bytes is 1.
\<close>

definition empty_compressed_chunk :: "byte list" where
  "empty_compressed_chunk = [17, 0, 1, 0, 0, 0, 0, 0, 0, 0, 0, 0, 5, 0, 0, 0]"

text \<open>
  The example environment with a decompressor that answers the six bytes 4, \<open>world\<close> (in
  FastLZ a run of five literal bytes) with the five bytes \<open>world\<close>, given an output buffer;
  the compressed data chunk with that payload and its right checksum; and the archive in
  which this chunk is followed by its header once more, where the stream ends.
\<close>

definition env_literal :: env where
  "env_literal =
     env0\<lparr>fastlz_decompress := (\<lambda>input len out maxout.
            if input = [4, 119, 111, 114, 108, 100] \<and> out then (5, [119, 111, 114, 108, 100])
            else (0, []))\<rparr>"

definition literal_chunk :: "byte list" where
  "literal_chunk =
     [17, 0, 1, 0, 6, 0, 0, 0, 45, 2, 191, 6, 5, 0, 0, 0, 4, 119, 111, 114, 108, 100]"

definition repeated_archive :: "byte list" where
  "repeated_archive = take 43 hello_archive @ literal_chunk @ take 16 literal_chunk"

section \<open>Adler-32\<close>

text \<open>
  The sum of the bytes, and the sum in which a byte counts once for every byte from it to
  the end: what \<open>s1\<close> and \<open>s2\<close> gain over a run of bytes, before any reduction.
\<close>

fun bsum :: "byte list \<Rightarrow> nat" where
  "bsum [] = 0"
| "bsum (b # bs) = unat b + bsum bs"

fun wsum :: "byte list \<Rightarrow> nat" where
  "wsum [] = 0"
| "wsum (b # bs) = Suc (length bs) * unat b + wsum bs"

text \<open>
  The two sums after \<open>update_adler32\<close> has gone through \<open>bs\<close>, from the sums \<open>s\<close> it started
  with: nothing is reduced when there is no byte.
\<close>

definition sums_after :: "nat \<times> nat \<Rightarrow> byte list \<Rightarrow> nat \<times> nat" where
  "sums_after s bs =
     (if bs = [] then s
      else ((fst s + bsum bs) mod 65521, (snd s + length bs * fst s + wsum bs) mod 65521))"

text \<open>The two 16-bit halves of a checksum, and the value with given halves.\<close>

definition halves :: "ulong \<Rightarrow> nat \<times> nat" where
  "halves c = (unat c mod 65536, unat c div 65536 mod 65536)"

definition pack :: "nat \<times> nat \<Rightarrow> nat" where
  "pack s = snd s * 65536 + fst s"

lemma unat_of_nat64: "x < 2 ^ 64 \<Longrightarrow> unat (of_nat x :: ulong) = x"
  by (simp add: unat_of_nat take_bit_nat_eq_self)

lemma of_nat_mod_base: 
  assumes x: "x < 2 ^ 64"
  shows "(of_nat x :: ulong) mod 65521 = of_nat (x mod 65521)"
proof -
  have "(of_nat x :: ulong) mod 65521 = of_nat (unat (of_nat x :: ulong) mod unat (65521 :: ulong))"
    by (rule word_arith_nat_mod)
  also have "\<dots> = of_nat (x mod 65521)"
    by (simp only: unat_of_nat64 [OF x]) simp
  finally show ?thesis .
qed

lemma lo16: "(c::ulong) AND 0xffff = of_nat (unat c mod 65536)"
proof -
  have "c AND 0xffff = take_bit 16 c"
    by (simp add: take_bit_eq_mask mask_eq_exp_minus_1)
  also have "\<dots> = c mod 65536"
    by (simp add: take_bit_eq_mod)
  also have "\<dots> = of_nat (unat c mod unat (65536 :: ulong))"
    by (rule word_arith_nat_mod)
  finally show ?thesis by simp
qed

lemma hi16: "drop_bit 16 (c::ulong) AND 0xffff = of_nat (unat c div 65536 mod 65536)"
  by (simp add: lo16 unat_drop_bit_eq drop_bit_eq_div unat_div)

lemma bsum_append: "bsum (xs @ ys) = bsum xs + bsum ys"
  by (induction xs) auto

lemma wsum_append: "wsum (xs @ ys) = wsum xs + length ys * bsum xs + wsum ys"
  by (induction xs) (auto simp: algebra_simps)

lemma bsum_le: "bsum bs \<le> 255 * length bs"
proof (induction bs)
  case Nil
  then show ?case by simp
next
  case (Cons b bs)
  have "unat b < 2 ^ 8" using unsigned_less [of b] by simp
  then show ?case using Cons by simp
qed

lemma wsum_le: "wsum bs \<le> 255 * (length bs * Suc (length bs))"
proof (induction bs)
  case Nil
  then show ?case by simp
next
  case (Cons b bs)
  have "unat b < 2 ^ 8" using unsigned_less [of b] by simp
  then have "unat b \<le> 255" by simp
  then have "Suc (length bs) * unat b \<le> Suc (length bs) * 255"
    by (rule mult_le_mono2)
  then show ?case using Cons by (simp add: algebra_simps)
qed

lemma adler_byte_of_nat:
  "adler_byte (of_nat a, of_nat b) x = (of_nat (a + unat x), of_nat (b + a + unat x))"
  by (simp add: adler_byte_def Let_def)

lemma adler_rest_of_nat:
  "adler_rest (of_nat a, of_nat b) bs =
     (of_nat (a + bsum bs), of_nat (b + length bs * a + wsum bs))"
proof (induction bs arbitrary: a b)
  case Nil
  then show ?case by simp
next
  case (Cons x bs)
  have "adler_rest (of_nat a, of_nat b) (x # bs) =
        adler_rest (of_nat (a + unat x), of_nat (b + a + unat x)) bs"
    by (simp only: adler_rest.simps adler_byte_of_nat)
  also have "\<dots> = (of_nat (a + unat x + bsum bs),
                     of_nat (b + a + unat x + length bs * (a + unat x) + wsum bs))"
    by (rule Cons.IH)
  finally show ?case by (simp add: algebra_simps)
qed

lemma adler_unrolled_rest:
  "adler_rest (fst (adler_unrolled s bs)) (snd (adler_unrolled s bs)) = adler_rest s bs"
  by (induction s bs rule: adler_unrolled.induct) simp_all

lemma adler_block_of_nat:
  assumes a: "a < 65536" and b: "b < 65536" and n: "length blk \<le> 5552"
  shows "adler_block (of_nat a, of_nat b) blk =
     (of_nat ((a + bsum blk) mod 65521), of_nat ((b + length blk * a + wsum blk) mod 65521))"
proof -
  have s1: "a + bsum blk < 2 ^ 64"
    using bsum_le [of blk] a n by simp
  have "length blk * Suc (length blk) \<le> 5552 * 5553"
    using n by (intro mult_le_mono) simp_all
  then have w: "wsum blk \<le> 255 * (5552 * 5553)"
    using wsum_le [of blk] by simp
  have "length blk * a \<le> 5552 * 65536"
    using a n by (intro mult_le_mono) simp_all
  then have s2: "b + length blk * a + wsum blk < 2 ^ 64"
    using w b by simp
  have "adler_block (of_nat a, of_nat b) blk =
        (fst (adler_rest (of_nat a, of_nat b) blk) mod 65521,
         snd (adler_rest (of_nat a, of_nat b) blk) mod 65521)"
    using adler_unrolled_rest [of "(of_nat a, of_nat b)" blk]
    by (simp add: adler_block_def split_beta ADLER32_BASE_def)
  also have "\<dots> = (of_nat (a + bsum blk) mod 65521,
                     of_nat (b + length blk * a + wsum blk) mod 65521)"
    by (simp only: adler_rest_of_nat fst_conv snd_conv)
  finally show ?thesis
    by (simp only: of_nat_mod_base [OF s1] of_nat_mod_base [OF s2])
qed

lemma sums_after_lt: "bs \<noteq> [] \<Longrightarrow> fst (sums_after s bs) < 65521 \<and> snd (sums_after s bs) < 65521"
  by (simp add: sums_after_def)

lemma sums_after_append:
  "sums_after (sums_after s xs) ys = sums_after s (xs @ ys)"
proof (cases "xs = [] \<or> ys = []")
  case True
  then show ?thesis by (auto simp: sums_after_def)
next
  case False
  obtain a b where s: "s = (a, b)" by (cases s)
  have 1: "((a + bsum xs) mod 65521 + bsum ys) mod 65521 = (a + bsum (xs @ ys)) mod 65521"
    by (simp add: bsum_append mod_add_left_eq add.assoc)
  have "((b + length xs * a + wsum xs) mod 65521 + length ys * ((a + bsum xs) mod 65521) + wsum ys) mod 65521
      = ((b + length xs * a + wsum xs) + length ys * (a + bsum xs) + wsum ys) mod 65521"
    by (intro mod_add_cong mod_mult_cong) simp_all
  also have "\<dots> = (b + length (xs @ ys) * a + wsum (xs @ ys)) mod 65521"
    by (simp add: wsum_append algebra_simps)
  finally show ?thesis
    using False 1 by (simp add: sums_after_def s)
qed

lemma adler_loop_of_nat:
  "a < 65536 \<Longrightarrow> b < 65536 \<Longrightarrow>
   adler_loop (of_nat a, of_nat b) bs =
     (of_nat (fst (sums_after (a, b) bs)), of_nat (snd (sums_after (a, b) bs)))"
proof (induction "length bs" arbitrary: a b bs rule: less_induct)
  case less
  show ?case
  proof (cases "bs = []")
    case True
    then show ?thesis by (subst adler_loop.simps) (simp add: sums_after_def)
  next
    case False
    define k where "k = min (length bs) 5552"
    define blk where "blk = take k bs"
    define rest where "rest = drop k bs"
    have bs: "bs = blk @ rest" by (simp add: blk_def rest_def)
    have blk: "blk \<noteq> []" "length blk \<le> 5552"
      using False by (auto simp: blk_def k_def)
    have shorter: "length rest < length bs"
      using False by (simp add: rest_def k_def)
    obtain a' b' where ab: "sums_after (a, b) blk = (a', b')"
      by (cases "sums_after (a, b) blk")
    have lt: "a' < 65536" "b' < 65536"
      using sums_after_lt [OF blk(1), of "(a, b)"] ab by simp_all
    have "adler_loop (of_nat a, of_nat b) bs =
          adler_loop (adler_block (of_nat a, of_nat b) blk) rest"
      using False by (subst adler_loop.simps) (simp add: k_def blk_def rest_def Let_def)
    also have "adler_block (of_nat a, of_nat b) blk = (of_nat a', of_nat b')"
      using adler_block_of_nat [OF less.prems blk(2)] ab blk(1)
      by (simp add: sums_after_def)
    also have "adler_loop (of_nat a', of_nat b') rest =
          (of_nat (fst (sums_after (a', b') rest)), of_nat (snd (sums_after (a', b') rest)))"
      by (rule less.hyps [OF shorter lt])
    also have "sums_after (a', b') rest = sums_after (a, b) bs"
      using sums_after_append [of "(a, b)" blk rest] by (simp add: ab bs)
    finally show ?thesis .
  qed
qed

lemma update_adler32_sums:
  "update_adler32 c bs = of_nat (pack (sums_after (halves c) bs))"
proof -
  have "adler_loop (c AND 0xffff, drop_bit 16 c AND 0xffff) bs =
     (of_nat (fst (sums_after (halves c) bs)), of_nat (snd (sums_after (halves c) bs)))"
    by (subst hi16, subst lo16, unfold halves_def, rule adler_loop_of_nat) simp_all
  then show ?thesis
    by (simp add: update_adler32_def Let_def pack_def push_bit_eq_mult)
qed

lemma halves_pack:
  assumes "fst s < 65536" "snd s < 65536"
  shows "halves (of_nat (pack s)) = s"
proof -
  have "pack s < 2 ^ 64" using assms by (simp add: pack_def)
  then have "unat (of_nat (pack s) :: ulong) = pack s" by (rule unat_of_nat64)
  then show ?thesis using assms by (cases s) (simp add: halves_def pack_def)
qed

lemma halves_lt: "fst (halves c) < 65536 \<and> snd (halves c) < 65536"
  by (simp add: halves_def)

lemma sums_after_lt16:
  "fst s < 65536 \<Longrightarrow> snd s < 65536 \<Longrightarrow>
   fst (sums_after s bs) < 65536 \<and> snd (sums_after s bs) < 65536"
  using sums_after_lt [of bs s] by (cases "bs = []") (auto simp: sums_after_def)

lemma update_adler32_append:
  "update_adler32 (update_adler32 c xs) ys = update_adler32 c (xs @ ys)"
proof -
  have "halves (update_adler32 c xs) = sums_after (halves c) xs"
    unfolding update_adler32_sums
    using halves_lt [of c] by (intro halves_pack) (simp_all add: sums_after_lt16)
  then show ?thesis
    by (simp add: update_adler32_sums sums_after_append)
qed

lemma update_adler32_Nil: "update_adler32 c [] = c AND 0xffffffff"
proof -
  have "(c AND 0xffffffff) = take_bit 32 c"
    by (simp add: take_bit_eq_mask mask_eq_exp_minus_1)
  also have "\<dots> = c mod 4294967296"
    by (simp add: take_bit_eq_mod)
  also have "\<dots> = of_nat (unat c mod unat (4294967296 :: ulong))"
    by (rule word_arith_nat_mod)
  also have "\<dots> = of_nat (unat c mod 4294967296)" by simp
  also have "unat c mod 4294967296 = pack (halves c)"
    using mod_mult2_eq [of "unat c" 65536 65536] by (simp add: pack_def halves_def)
  finally show ?thesis
    by (simp add: update_adler32_sums sums_after_def)
qed

lemma adler32_sums_closed:
  "a < 65521 \<Longrightarrow> b < 65521 \<Longrightarrow>
   adler32_sums (a, b) bs =
     ((a + bsum bs) mod 65521, (b + length bs * a + wsum bs) mod 65521)"
proof (induction bs arbitrary: a b)
  case Nil
  then show ?case by simp
next
  case (Cons x bs)
  define a' where "a' = (a + unat x) mod 65521"
  define b' where "b' = (b + a') mod 65521"
  have lt: "a' < 65521" "b' < 65521" by (simp_all add: a'_def b'_def)
  have "adler32_sums (a, b) (x # bs) = adler32_sums (a', b') bs"
    by (simp add: a'_def b'_def Let_def)
  also have "\<dots> = ((a' + bsum bs) mod 65521, (b' + length bs * a' + wsum bs) mod 65521)"
    by (rule Cons.IH [OF lt])
  also have "(a' + bsum bs) mod 65521 = (a + bsum (x # bs)) mod 65521"
    by (simp add: a'_def mod_add_left_eq add.assoc)
  also have "(b' + length bs * a' + wsum bs) mod 65521 =
             ((b + (a + unat x)) + length bs * (a + unat x) + wsum bs) mod 65521"
    unfolding b'_def a'_def
    by (intro mod_add_cong mod_mult_cong) (simp_all add: mod_add_right_eq)
  also have "\<dots> = (b + length (x # bs) * a + wsum (x # bs)) mod 65521"
    by (simp add: algebra_simps)
  finally show ?case .
qed

lemma adler32_sums_after: "adler32 bs = sums_after (1, 0) bs"
  by (cases "bs = []") (simp_all add: adler32_def sums_after_def adler32_sums_closed)

lemma adler32_lt: "fst (adler32 bs) < 65521 \<and> snd (adler32 bs) < 65521"
  using sums_after_lt [of bs "(1, 0)"]
  by (cases "bs = []") (simp_all add: adler32_sums_after sums_after_def)

lemma pack_or:
  assumes "a < 65536"
  shows "push_bit 16 (of_nat b :: ulong) OR of_nat a = of_nat (b * 65536 + a)"
proof -
  have a: "take_bit 16 a = a"
    using assms by (simp add: take_bit_nat_eq_self)
  have "push_bit 16 b AND take_bit 16 a = 0"
    by (simp add: bit_eq_iff bit_simps)
  then have "push_bit 16 b + take_bit 16 a = push_bit 16 b OR take_bit 16 a"
    by (rule disjunctive_add_eq_or)
  then have "push_bit 16 b OR a = b * 65536 + a"
    by (simp add: a push_bit_eq_mult)
  then have "(of_nat (push_bit 16 b OR a) :: ulong) = of_nat (b * 65536 + a)"
    by (rule arg_cong)
  then show ?thesis
    by (simp only: of_nat_or_eq of_nat_push_bit)
qed

text \<open>
  C4. \<open>update_adler32(1, [])\<close> is 1; for a byte sequence split into \<open>A\<close> followed by
  \<open>B\<close>, updating the checksum of \<open>A\<close> with \<open>B\<close> gives the checksum of \<open>A @ B\<close>; and that value
  is the Adler-32 of the whole sequence, \<open>(s2 << 16) | s1\<close> with both sums of RFC 1950
  reduced modulo 65521.
\<close>

theorem update_adler32_chunked:
  "update_adler32 1 [] = 1 \<and>
   update_adler32 (update_adler32 1 A) B = update_adler32 1 (A @ B) \<and>
   update_adler32 1 (A @ B) =
     push_bit 16 (of_nat (snd (adler32 (A @ B)))) OR of_nat (fst (adler32 (A @ B))) \<and>
   fst (adler32 (A @ B)) < 65521 \<and> snd (adler32 (A @ B)) < 65521"
proof -
  have h: "halves 1 = (1, 0)" by (simp add: halves_def)
  have "fst (adler32 (A @ B)) < 65536"
    using adler32_lt [of "A @ B"] by simp
  then have "update_adler32 1 (A @ B) =
     push_bit 16 (of_nat (snd (adler32 (A @ B)))) OR of_nat (fst (adler32 (A @ B)))"
    by (simp only: pack_or update_adler32_sums h adler32_sums_after pack_def)
  moreover have "update_adler32 1 [] = 1"
    by (simp add: update_adler32_Nil)
  ultimately show ?thesis
    using adler32_lt [of "A @ B"] by (simp add: update_adler32_append)
qed




section \<open>The signature and the chunk header\<close>

lemma magic_loop_eq:
  "magic_loop buf c =
     (if (\<forall>i<8. c \<le> i \<longrightarrow> buf i = sixpack_magic ! i) then - 1 else 0)"
proof (induction buf c rule: magic_loop.induct)
  case (1 buf c)
  show ?case
  proof (cases "c < 8")
    case False
    then show ?thesis by (subst magic_loop.simps) simp
  next
    case True
    show ?thesis
    proof (cases "buf c = sixpack_magic ! c")
      case False
      with True have "\<not> (\<forall>i<8. c \<le> i \<longrightarrow> buf i = sixpack_magic ! i)" by auto
      with True False show ?thesis by (subst magic_loop.simps) simp
    next
      case eq: True
      have "(\<forall>i<8. c \<le> i \<longrightarrow> buf i = sixpack_magic ! i) \<longleftrightarrow>
            (\<forall>i<8. c + 1 \<le> i \<longrightarrow> buf i = sixpack_magic ! i)"
        using eq by (auto simp: Suc_le_eq le_less)
      with True eq "1.IH" show ?thesis by (subst magic_loop.simps) simp
    qed
  qed
qed

lemma take8_eq_magic:
  "8 \<le> length xs \<Longrightarrow> take 8 xs = sixpack_magic \<longleftrightarrow> (\<forall>i<8. xs ! i = sixpack_magic ! i)"
  by (auto simp: list_eq_iff_nth_eq sixpack_magic_def)

text \<open>
  C6. On a stream shorter than 8 bytes, or whose first 8 bytes differ from the signature
  137, '6', 'P', 'K', 13, 10, 26, 10 in any position, \<open>detect_magic\<close> returns 0 (false); on a
  stream whose first 8 bytes are the signature it returns - 1 (true). In every case it
  leaves the stream positioned at its start, wherever it was positioned before.
\<close>

theorem detect_magic_signature:
  "snd (detect_magic g s) = s\<lparr>stream_pos := 0\<rparr> \<and>
   (length (stream_data s) < 8 \<or> take 8 (stream_data s) \<noteq> sixpack_magic \<longrightarrow>
      fst (detect_magic g s) = 0) \<and>
   (take 8 (stream_data s) = sixpack_magic \<longrightarrow> fst (detect_magic g s) = - 1)"
proof -
  have len: "length sixpack_magic = 8" by (simp add: sixpack_magic_def)
  have pos: "snd (detect_magic g s) = s\<lparr>stream_pos := 0\<rparr>"
    by (simp add: detect_magic_def fread_def fseek_set_def Let_def)
  have short: "fst (detect_magic g s) = 0" if "length (stream_data s) < 8"
    using that by (simp add: detect_magic_def fread_def fseek_set_def Let_def)
  have long: "fst (detect_magic g s) =
      (if take 8 (stream_data s) = sixpack_magic then - 1 else 0)" if "8 \<le> length (stream_data s)"
  proof -
    have "fst (detect_magic g s) = magic_loop (store g (take 8 (stream_data s))) 0"
      using that by (simp add: detect_magic_def fread_def fseek_set_def Let_def)
    also have "\<dots> = (if (\<forall>i<8. 0 \<le> i \<longrightarrow>
          store g (take 8 (stream_data s)) i = sixpack_magic ! i) then - 1 else 0)"
      by (rule magic_loop_eq)
    also have "(\<forall>i<8. 0 \<le> i \<longrightarrow> store g (take 8 (stream_data s)) i = sixpack_magic ! i) \<longleftrightarrow>
               (\<forall>i<8. stream_data s ! i = sixpack_magic ! i)"
    proof -
      have "store g (take 8 (stream_data s)) i = stream_data s ! i" if "i < 8" for i
        using that \<open>8 \<le> length (stream_data s)\<close>
        unfolding store_def by (simp only: length_take min_absorb2 nth_take if_True)
      then show ?thesis by auto
    qed
    finally show ?thesis using that by (simp add: take8_eq_magic)
  qed
  have eq8: "8 \<le> length (stream_data s)" if "take 8 (stream_data s) = sixpack_magic"
    using arg_cong [OF that, of length] by (simp add: len)
  show ?thesis
  proof (intro conjI impI)
    show "snd (detect_magic g s) = s\<lparr>stream_pos := 0\<rparr>" by (rule pos)
    show "fst (detect_magic g s) = 0"
      if "length (stream_data s) < 8 \<or> take 8 (stream_data s) \<noteq> sixpack_magic"
      using that short long by (cases "length (stream_data s) < 8") auto
    show "fst (detect_magic g s) = - 1" if "take 8 (stream_data s) = sixpack_magic"
      using that long [OF eq8 [OF that]] by simp
  qed
qed

theorem detect_magic_signature_witness:
  "snd (detect_magic (\<lambda>i. 0) \<lparr>stream_data = [137, 54, 80, 75, 13, 10, 26, 10, 1, 0], stream_pos = 3\<rparr>)
     = \<lparr>stream_data = [137, 54, 80, 75, 13, 10, 26, 10, 1, 0], stream_pos = 0\<rparr> \<and>
   fst (detect_magic (\<lambda>i. 0) \<lparr>stream_data = [137, 54, 80, 75, 13, 10, 26, 10, 1, 0], stream_pos = 3\<rparr>)
     = - 1 \<and>
   fst (detect_magic (\<lambda>i. 0) \<lparr>stream_data = [137, 54, 80], stream_pos = 1\<rparr>) = 0 \<and>
   fst (detect_magic (\<lambda>i. 0) \<lparr>stream_data = [137, 54, 80, 75, 13, 10, 26, 11], stream_pos = 0\<rparr>) = 0"
  using detect_magic_signature [of "\<lambda>i. 0" "\<lparr>stream_data = [137, 54, 80, 75, 13, 10, 26, 10, 1, 0], stream_pos = 3\<rparr>"]
        detect_magic_signature [of "\<lambda>i. 0" "\<lparr>stream_data = [137, 54, 80], stream_pos = 1\<rparr>"]
        detect_magic_signature [of "\<lambda>i. 0" "\<lparr>stream_data = [137, 54, 80, 75, 13, 10, 26, 11], stream_pos = 0\<rparr>"]
  by (simp add: sixpack_magic_def)

lemma bytes_sum_or:
  fixes b0 b1 b2 b3 :: byte
  shows "(ucast b0 :: cint) + push_bit 8 (ucast b1) + push_bit 16 (ucast b2) + push_bit 24 (ucast b3)
       = ((ucast b0 OR push_bit 8 (ucast b1)) OR push_bit 16 (ucast b2)) OR push_bit 24 (ucast b3)"
proof -
  have 1: "(ucast b0 :: cint) AND push_bit 8 (ucast b1) = 0"
    by (rule bit_word_eqI) (auto simp: bit_simps dest: bit_imp_le_length)
  have 2: "((ucast b0 :: cint) OR push_bit 8 (ucast b1)) AND push_bit 16 (ucast b2) = 0"
    by (rule bit_word_eqI) (auto simp: bit_simps dest: bit_imp_le_length)
  have 3: "(((ucast b0 :: cint) OR push_bit 8 (ucast b1)) OR push_bit 16 (ucast b2))
            AND push_bit 24 (ucast b3) = 0"
    by (rule bit_word_eqI) (auto simp: bit_simps dest: bit_imp_le_length)
  show ?thesis
    by (simp only: disjunctive_add_eq_or [OF 1] disjunctive_add_eq_or [OF 2]
          disjunctive_add_eq_or [OF 3])
qed

lemma readU32_le32:
  assumes m: "m 0 = ucast v" "m 1 = ucast (drop_bit 8 v)" "m 2 = ucast (drop_bit 16 v)"
      "m 3 = ucast (drop_bit 24 v)"
    and v: "v < 2 ^ 32"
  shows "readU32 m AND 0xffffffff = (v :: ulong)"
proof -
  have v32: "v AND mask 32 = v"
    using v by (rule less_mask_eq)
  have "readU32 m AND mask 32 = v AND mask 32"
    unfolding readU32_def bytes_sum_or m
    apply (rule bit_word_eqI)
    apply (auto simp: bit_simps)
    subgoal for n by (cases "24 \<le> n") simp_all
    done
  then have "readU32 m AND mask 32 = v" by (simp only: v32)
  moreover have "mask 32 = (0xffffffff :: ulong)" by (simp add: mask_eq_exp_minus_1)
  ultimately show ?thesis by (simp only:)
qed

lemma readU16_le16:
  assumes m: "m 0 = ucast v" "m 1 = ucast (drop_bit 8 v)"
    and v: "v < 2 ^ 16"
  shows "ucast (readU16 m AND 0xffff) = (v :: cint)"
proof -
  have v16: "v AND mask 16 = v"
    using v by (rule less_mask_eq)
  have 1: "(ucast (ucast v :: byte) :: cint) AND push_bit 8 (ucast (ucast (drop_bit 8 v) :: byte)) = 0"
    by (rule bit_word_eqI) (auto simp: bit_simps dest: bit_imp_le_length)
  have "(ucast (readU16 m AND mask 16) :: cint) = v AND mask 16"
    unfolding readU16_def m disjunctive_add_eq_or [OF 1]
    apply (rule bit_word_eqI)
    apply (auto simp: bit_simps)
    done
  then have "(ucast (readU16 m AND mask 16) :: cint) = v" by (simp only: v16)
  moreover have "mask 16 = (0xffff :: ulong)" by (simp add: mask_eq_exp_minus_1)
  ultimately show ?thesis by (simp only:)
qed

lemma length_encode_chunk_header: "length (encode_chunk_header c) = 16"
  by (simp add: encode_chunk_header_def le16_def le32_def)

lemma fread_encoded:
  "fread 16 \<lparr>stream_data = pre @ encode_chunk_header c @ post, stream_pos = length pre\<rparr> =
     (encode_chunk_header c,
      \<lparr>stream_data = pre @ encode_chunk_header c @ post, stream_pos = length pre + 16\<rparr>)"
  by (simp add: fread_def length_encode_chunk_header Let_def)

text \<open>
  C5. For \<open>id\<close> and \<open>options\<close> that fit 16 bits and \<open>size\<close>, \<open>checksum\<close> and \<open>extra\<close> that fit
  32 bits, the 16 bytes of the little-endian layout, read by \<open>read_chunk_header\<close> at any
  place of a stream, give back exactly these five values (and the stream is 16 bytes
  further).
\<close>

theorem chunk_header_roundtrip:
  fixes c :: chunk
  assumes "chunk_id c < 2 ^ 16" and "chunk_options c < 2 ^ 16"
    and "chunk_size c < 2 ^ 32" and "chunk_checksum c < 2 ^ 32" and "chunk_extra c < 2 ^ 32"
  shows "read_chunk_header g
           \<lparr>stream_data = pre @ encode_chunk_header c @ post, stream_pos = length pre\<rparr> =
         (c, \<lparr>stream_data = pre @ encode_chunk_header c @ post, stream_pos = length pre + 16\<rparr>)"
proof -
  define buf where "buf = store g (encode_chunk_header c)"
  have b: "buf 0 = ucast (chunk_id c)" "buf 1 = ucast (drop_bit 8 (chunk_id c))"
    "offset buf 2 0 = ucast (chunk_options c)" "offset buf 2 1 = ucast (drop_bit 8 (chunk_options c))"
    "offset buf 4 0 = ucast (chunk_size c)" "offset buf 4 1 = ucast (drop_bit 8 (chunk_size c))"
    "offset buf 4 2 = ucast (drop_bit 16 (chunk_size c))"
    "offset buf 4 3 = ucast (drop_bit 24 (chunk_size c))"
    "offset buf 8 0 = ucast (chunk_checksum c)" "offset buf 8 1 = ucast (drop_bit 8 (chunk_checksum c))"
    "offset buf 8 2 = ucast (drop_bit 16 (chunk_checksum c))"
    "offset buf 8 3 = ucast (drop_bit 24 (chunk_checksum c))"
    "offset buf 12 0 = ucast (chunk_extra c)" "offset buf 12 1 = ucast (drop_bit 8 (chunk_extra c))"
    "offset buf 12 2 = ucast (drop_bit 16 (chunk_extra c))"
    "offset buf 12 3 = ucast (drop_bit 24 (chunk_extra c))"
    by (simp_all add: buf_def store_def offset_def encode_chunk_header_def le16_def le32_def)
  have "ucast (readU16 buf AND 0xffff) = chunk_id c"
    using b(1,2) assms(1) by (rule readU16_le16)
  moreover have "ucast (readU16 (offset buf 2) AND 0xffff) = chunk_options c"
    using b(3,4) assms(2) by (rule readU16_le16)
  moreover have "readU32 (offset buf 4) AND 0xffffffff = chunk_size c"
    using b(5,6,7,8) assms(3) by (rule readU32_le32)
  moreover have "readU32 (offset buf 8) AND 0xffffffff = chunk_checksum c"
    using b(9,10,11,12) assms(4) by (rule readU32_le32)
  moreover have "readU32 (offset buf 12) AND 0xffffffff = chunk_extra c"
    using b(13,14,15,16) assms(5) by (rule readU32_le32)
  ultimately show ?thesis
    by (simp add: read_chunk_header_def fread_encoded buf_def [symmetric])
qed

theorem chunk_header_roundtrip_witness:
  "(1 :: cint) < 2 ^ 16 \<and> (0 :: cint) < 2 ^ 16 \<and> (4000000000 :: ulong) < 2 ^ 32 \<and>
   (4294967295 :: ulong) < 2 ^ 32 \<and> (305419896 :: ulong) < 2 ^ 32 \<and>
   read_chunk_header (\<lambda>i. 0)
     \<lparr>stream_data = [7, 7] @
        encode_chunk_header \<lparr>chunk_id = 1, chunk_options = 0, chunk_size = 4000000000,
          chunk_checksum = 4294967295, chunk_extra = 305419896\<rparr> @ [9],
      stream_pos = length [7, 7 :: byte]\<rparr> =
   (\<lparr>chunk_id = 1, chunk_options = 0, chunk_size = 4000000000,
      chunk_checksum = 4294967295, chunk_extra = 305419896\<rparr>,
    \<lparr>stream_data = [7, 7] @
        encode_chunk_header \<lparr>chunk_id = 1, chunk_options = 0, chunk_size = 4000000000,
          chunk_checksum = 4294967295, chunk_extra = 305419896\<rparr> @ [9],
      stream_pos = length [7, 7 :: byte] + 16\<rparr>)"
proof -
  have h: "(1 :: cint) < 2 ^ 16" "(0 :: cint) < 2 ^ 16" "(4000000000 :: ulong) < 2 ^ 32"
    "(4294967295 :: ulong) < 2 ^ 32" "(305419896 :: ulong) < 2 ^ 32"
    by simp_all
  show ?thesis
    using h chunk_header_roundtrip [of "\<lparr>chunk_id = 1, chunk_options = 0, chunk_size = 4000000000,
          chunk_checksum = 4294967295, chunk_extra = 305419896\<rparr>" "\<lambda>i. 0" "[7, 7]" "[9]"]
    by simp
qed

section \<open>The main loop goes forward\<close>

lemma unpack_step_Continue_pos:
  assumes "unpack_step e st = Continue st'"
  shows "stream_pos (inp st') =
         stream_pos (inp st) + 16 +
         unat (chunk_size (fst (read_chunk_header (header_garbage e (stream_pos (inp st))) (inp st))))"
  using assms
  by (auto simp: unpack_step_def Let_def ftell_def fseek_set_def
           split: prod.splits outcome.splits if_splits)

lemma fread_data: "stream_data (snd (fread n s)) = stream_data s"
  by (simp add: fread_def Let_def)

lemma stored_loop_data:
  "stream_data (inp (fst (stored_loop st remaining checksum))) = stream_data (inp st)"
proof (induction st remaining checksum rule: stored_loop.induct)
  case (1 st remaining checksum)
  define r where "r = (if BLOCK_SIZE < remaining then BLOCK_SIZE else remaining)"
  obtain bs in1 where fr: "fread (unat r) (inp st) = (bs, in1)"
    by (cases "fread (unat r) (inp st)")
  have d: "stream_data in1 = stream_data (inp st)"
    using fread_data [of "unat r" "inp st"] fr by simp
  show ?case
  proof (cases "length bs = 0")
    case True
    then show ?thesis
      using fr d by (subst stored_loop.simps) (simp add: r_def [symmetric] Let_def)
  next
    case False
    have "stream_data (inp (fst (stored_loop st remaining checksum))) =
          stream_data (inp (fwrite (map (store (buffer st) bs) [0..<length bs])
             (st\<lparr>inp := in1, buffer := store (buffer st) bs\<rparr>)))"
      using False fr "1.IH" [OF r_def refl fr [symmetric] refl False refl refl refl]
      by (subst stored_loop.simps) (simp add: r_def [symmetric] Let_def)
    then show ?thesis by (simp add: fwrite_def d split: option.splits)
  qed
qed

lemma file_entry_chunk_data:
  "file_entry_chunk e p c st = Continue st' \<Longrightarrow> stream_data (inp st') = stream_data (inp st)"
  using fread_data [of "unat (chunk_size c)" "inp st"]
  by (auto simp: file_entry_chunk_def Let_def split: prod.splits if_splits option.splits)

lemma fread_dataD: "fread n s = (bs, s') \<Longrightarrow> stream_data s' = stream_data s"
  using fread_data [of n s] by simp

lemma stored_loop_dataD:
  "stored_loop st remaining checksum = (st', ck) \<Longrightarrow> stream_data (inp st') = stream_data (inp st)"
  using stored_loop_data [of st remaining checksum] by simp

lemma grow_buffers_frame:
  "inp (grow_buffers e p c st) = inp st"
  "buffer (grow_buffers e p c st) = buffer st"
  "files (grow_buffers e p c st) = files st"
  "f_out (grow_buffers e p c st) = f_out st"
  "output_file (grow_buffers e p c st) = output_file st"
  "decompressed_size (grow_buffers e p c st) = decompressed_size st"
  "total_extracted (grow_buffers e p c st) = total_extracted st"
  by (simp_all add: grow_buffers_def Let_def)

lemma abandon_frame:
  "inp (abandon st) = inp st"
  "buffer (abandon st) = buffer st"
  "files (abandon st) = files st"
  "f_out (abandon st) = None"
  "output_file (abandon st) = None"
  "decompressed_size (abandon st) = decompressed_size st"
  "total_extracted (abandon st) = total_extracted st"
  by (simp_all add: abandon_def)

lemma fwrite_frame:
  "inp (fwrite bs st) = inp st"
  "buffer (fwrite bs st) = buffer st"
  "f_out (fwrite bs st) = f_out st"
  "output_file (fwrite bs st) = output_file st"
  "decompressed_size (fwrite bs st) = decompressed_size st"
  "total_extracted (fwrite bs st) = total_extracted st"
  by (simp_all add: fwrite_def split: option.splits)

lemma stored_chunk_data:
  "stored_chunk c st = Continue st' \<Longrightarrow> stream_data (inp st') = stream_data (inp st)"
  by (auto simp: stored_chunk_def Let_def abandon_frame split: prod.splits if_splits
           dest!: stored_loop_dataD)

lemma compressed_chunk_data:
  assumes "compressed_chunk e p c st = Continue st'"
  shows "stream_data (inp st') = stream_data (inp st)"
proof -
  define st2 where "st2 = grow_buffers e p c st"
  obtain bs in1 where fr: "fread (unat (chunk_size c)) (inp st2) = (bs, in1)"
    by (cases "fread (unat (chunk_size c)) (inp st2)")
  have d: "stream_data in1 = stream_data (inp st)"
    using fread_dataD [OF fr] by (simp add: st2_def grow_buffers_frame)
  have "inp st' = in1"
    using assms fr
    by (auto simp: compressed_chunk_def Let_def st2_def [symmetric] abandon_frame fwrite_frame
             split: option.splits prod.splits if_splits)
  then show ?thesis by (simp add: d)
qed

lemma file_data_chunk_data:
  "file_data_chunk e p c st = Continue st' \<Longrightarrow> stream_data (inp st') = stream_data (inp st)"
  by (auto simp: file_data_chunk_def abandon_frame split: if_splits
           dest: stored_chunk_data compressed_chunk_data)

lemma read_chunk_header_data:
  "stream_data (snd (read_chunk_header g s)) = stream_data s"
  by (simp add: read_chunk_header_def fread_def Let_def)

lemma unpack_step_ContinueE:
  assumes "unpack_step e st = Continue st'"
  obtains c in1 st1 st2 where
    "read_chunk_header (header_garbage e (stream_pos (inp st))) (inp st) = (c, in1)"
    "(if chunk_id c = 1 \<and> 10 < chunk_size c \<and> chunk_size c < BLOCK_SIZE
      then file_entry_chunk e (stream_pos (inp st)) c (st\<lparr>inp := in1\<rparr>)
      else Continue (st\<lparr>inp := in1\<rparr>)) = Continue st1"
    "(if chunk_id c = 17 \<and> f_out st1 \<noteq> None \<and> output_file st1 \<noteq> None \<and>
         decompressed_size st1 \<noteq> 0
      then file_data_chunk e (stream_pos (inp st)) c st1 else Continue st1) = Continue st2"
    "st' = st2\<lparr>inp := fseek_set (inp st2) (stream_pos (inp st) + 16 + unat (chunk_size c))\<rparr>"
  using assms
  by (auto simp: unpack_step_def Let_def ftell_def split: prod.splits outcome.splits)

lemma unpack_step_Continue_data:
  assumes "unpack_step e st = Continue st'"
  shows "stream_data (inp st') = stream_data (inp st)"
proof -
  from assms obtain c in1 st1 st2 where
    h: "read_chunk_header (header_garbage e (stream_pos (inp st))) (inp st) = (c, in1)"
    and r1: "(if chunk_id c = 1 \<and> 10 < chunk_size c \<and> chunk_size c < BLOCK_SIZE
      then file_entry_chunk e (stream_pos (inp st)) c (st\<lparr>inp := in1\<rparr>)
      else Continue (st\<lparr>inp := in1\<rparr>)) = Continue st1"
    and r2: "(if chunk_id c = 17 \<and> f_out st1 \<noteq> None \<and> output_file st1 \<noteq> None \<and>
         decompressed_size st1 \<noteq> 0
      then file_data_chunk e (stream_pos (inp st)) c st1 else Continue st1) = Continue st2"
    and st': "st' = st2\<lparr>inp := fseek_set (inp st2) (stream_pos (inp st) + 16 + unat (chunk_size c))\<rparr>"
    by (rule unpack_step_ContinueE)
  have d1: "stream_data in1 = stream_data (inp st)"
    using read_chunk_header_data [of "header_garbage e (stream_pos (inp st))" "inp st"] h by simp
  have d2: "stream_data (inp st1) = stream_data in1"
    using r1 file_entry_chunk_data [of e "stream_pos (inp st)" c "st\<lparr>inp := in1\<rparr>" st1]
    by (auto split: if_splits)
  have d3: "stream_data (inp st2) = stream_data (inp st1)"
    using r2 file_data_chunk_data [of e "stream_pos (inp st)" c st1 st2]
    by (auto split: if_splits)
  show ?thesis
    by (simp add: st' fseek_set_def d3 d2 d1)
qed

lemma unpack_fuel_enough:
  "fsize - stream_pos (inp st) + 16 \<le> 16 * n \<Longrightarrow>
   unpack_fuel n e fsize st = Some (unpack_loop e fsize st)"
proof (induction n arbitrary: st)
  case 0
  then show ?case by simp
next
  case (Suc n)
  show ?case
  proof (cases "fsize \<le> ftell (inp st)")
    case True
    then show ?thesis by (subst unpack_loop.simps) simp
  next
    case False
    show ?thesis
    proof (cases "unpack_step e st")
      case (Continue st')
      have "stream_pos (inp st) + 16 \<le> stream_pos (inp st')"
        using unpack_step_Continue_pos [OF Continue] by simp
      with Suc.prems False have "fsize - stream_pos (inp st') + 16 \<le> 16 * n"
        unfolding ftell_def by simp arith
      then have "unpack_fuel n e fsize st' = Some (unpack_loop e fsize st')"
        by (rule Suc.IH)
      with False Continue show ?thesis by (subst unpack_loop.simps) simp
    next
      case (Return r st')
      with False show ?thesis by (subst unpack_loop.simps) simp
    next
      case (Abort st')
      with False show ?thesis by (subst unpack_loop.simps) simp
    qed
  qed
qed

lemma file_entry_chunk_Return:
  "file_entry_chunk e p c st = Return r st' \<Longrightarrow> r = - 1"
  by (auto simp: file_entry_chunk_def Let_def split: prod.splits if_splits option.splits)

lemma file_data_chunk_Return: "file_data_chunk e p c st \<noteq> Return r st'"
  by (auto simp: file_data_chunk_def stored_chunk_def compressed_chunk_def Let_def
           split: prod.splits if_splits option.splits)

lemma unpack_step_unfold:
  assumes "read_chunk_header (header_garbage e (stream_pos (inp st))) (inp st) = (c, in1)"
  shows "unpack_step e st =
     (case (if chunk_id c = 1 \<and> 10 < chunk_size c \<and> chunk_size c < BLOCK_SIZE
            then file_entry_chunk e (stream_pos (inp st)) c (st\<lparr>inp := in1\<rparr>)
            else Continue (st\<lparr>inp := in1\<rparr>)) of
        Continue st1 \<Rightarrow>
          (case (if chunk_id c = 17 \<and> f_out st1 \<noteq> None \<and> output_file st1 \<noteq> None \<and>
                    decompressed_size st1 \<noteq> 0
                 then file_data_chunk e (stream_pos (inp st)) c st1 else Continue st1) of
             Continue st2 \<Rightarrow>
               Continue (st2\<lparr>inp := fseek_set (inp st2)
                                 (stream_pos (inp st) + 16 + unat (chunk_size c))\<rparr>)
           | r2 \<Rightarrow> r2)
      | r1 \<Rightarrow> r1)"
  unfolding unpack_step_def Let_def ftell_def assms prod.case by (rule refl)

lemma unpack_step_Return:
  assumes "unpack_step e st = Return r st'"
  shows "r = - 1"
proof -
  obtain c in1 where h: "read_chunk_header (header_garbage e (stream_pos (inp st))) (inp st) = (c, in1)"
    by (cases "read_chunk_header (header_garbage e (stream_pos (inp st))) (inp st)")
  define r1 where "r1 = (if chunk_id c = 1 \<and> 10 < chunk_size c \<and> chunk_size c < BLOCK_SIZE
      then file_entry_chunk e (stream_pos (inp st)) c (st\<lparr>inp := in1\<rparr>)
      else Continue (st\<lparr>inp := in1\<rparr>))"
  note u = unpack_step_unfold [OF h, folded r1_def]
  show ?thesis
  proof (cases r1)
    case (Continue st1)
    with u assms show ?thesis
      using file_data_chunk_Return [of e "stream_pos (inp st)" c st1 r st']
      by (auto split: if_splits outcome.splits)
  next
    case (Return r' st1)
    with u assms have "r1 = Return r st'" by simp
    then show ?thesis
      using file_entry_chunk_Return [of e "stream_pos (inp st)" c "st\<lparr>inp := in1\<rparr>" r st']
      by (auto simp: r1_def split: if_splits)
  next
    case (Abort st1)
    with u assms show ?thesis by simp
  qed
qed

text \<open>
  C3. In every pass of the main loop that goes on to a next pass, the stream is left at the
  offset of the chunk header plus 16 plus the \<open>size\<close> of that header, whatever the chunk's
  \<open>id\<close> and \<open>options\<close> are, whether a file is open, and however the payload was dealt with;
  the bytes of the stream are the same. A pass that does not go on ends the run: it
  returns - 1 or ends in \<open>abort()\<close>. So the offset grows by at least 16 a pass, and the loop
  ends: \<open>n\<close> passes are enough as soon as \<open>16 * n\<close> reaches what is left of the file plus 16.
\<close>

theorem main_loop_advances:
  "(unpack_step e st = Continue st' \<longrightarrow>
      stream_pos (inp st') =
        stream_pos (inp st) + 16 +
        unat (chunk_size (fst (read_chunk_header (header_garbage e (stream_pos (inp st))) (inp st)))) \<and>
      stream_pos (inp st) + 16 \<le> stream_pos (inp st') \<and>
      stream_data (inp st') = stream_data (inp st)) \<and>
   (unpack_step e st = Return r st' \<longrightarrow> r = - 1) \<and>
   (fsize - stream_pos (inp st) + 16 \<le> 16 * n \<longrightarrow>
      unpack_fuel n e fsize st = Some (unpack_loop e fsize st))"
proof (intro conjI impI)
  assume c: "unpack_step e st = Continue st'"
  show "stream_pos (inp st') =
        stream_pos (inp st) + 16 +
        unat (chunk_size (fst (read_chunk_header (header_garbage e (stream_pos (inp st))) (inp st))))"
    using c by (rule unpack_step_Continue_pos)
  then show "stream_pos (inp st) + 16 \<le> stream_pos (inp st')" by simp
  show "stream_data (inp st') = stream_data (inp st)"
    using c by (rule unpack_step_Continue_data)
next
  assume "unpack_step e st = Return r st'"
  then show "r = - 1" by (rule unpack_step_Return)
next
  assume "fsize - stream_pos (inp st) + 16 \<le> 16 * n"
  then show "unpack_fuel n e fsize st = Some (unpack_loop e fsize st)"
    by (rule unpack_fuel_enough)
qed

theorem main_loop_advances_witness:
  "unpack_step env0 hello_start = Continue (next_state (unpack_step env0 hello_start)) \<and>
   stream_pos (inp (next_state (unpack_step env0 hello_start))) = 8 + 16 + 19 \<and>
   stream_data (inp (next_state (unpack_step env0 hello_start))) = hello_archive \<and>
   unpack_fuel 5 env0 64 hello_start = Some (unpack_loop env0 64 hello_start)"
proof -
  have "is_Continue (unpack_step env0 hello_start)"
    by code_simp
  then have c: "unpack_step env0 hello_start = Continue (next_state (unpack_step env0 hello_start))"
    by simp
  have s: "unat (chunk_size (fst (read_chunk_header (header_garbage env0 8)
            (inp hello_start)))) = 19"
    by code_simp
  have p: "stream_pos (inp hello_start) = 8" "stream_data (inp hello_start) = hello_archive"
    by (simp_all add: hello_start_def)
  have n: "64 - stream_pos (inp hello_start) + 16 \<le> 16 * (5 :: nat)"
    by (simp add: p)
  show ?thesis
    using c n
      main_loop_advances [of env0 hello_start "next_state (unpack_step env0 hello_start)" 0 64 5]
    by (simp add: s p)
qed

section \<open>File entries\<close>

lemma sint_of_nat_small:
  assumes "k < 2147483648"
  shows "sint (of_nat k :: cint) = int k"
proof -
  have "signed_take_bit 31 (int k) = int k"
    using assms by (intro signed_take_bit_int_eq_self) simp_all
  then show ?thesis by (simp add: signed_of_nat)
qed

lemma sint_ucast_small:
  assumes "sz < (2147483648 :: ulong)"
  shows "sint (ucast sz :: cint) = int (unat sz)"
proof -
  have "unat sz < 2147483648"
    using assms by (simp add: word_less_nat_alt)
  then have "sint (of_nat (unat sz) :: cint) = int (unat sz)"
    by (rule sint_of_nat_small)
  then show ?thesis by simp
qed

lemma payload_seen_intact:
  assumes "stream_pos s + unat sz \<le> length (stream_data s)" and "sz < 2147483648"
  shows "payload_seen buf s sz = take (unat sz) (drop (stream_pos s) (stream_data s))"
proof -
  define bs where "bs = take (unat sz) (drop (stream_pos s) (stream_data s))"
  have len: "length bs = unat sz"
    using assms(1) by (simp add: bs_def)
  have "payload_seen buf s sz = map (store buf bs) [0..<unat sz]"
    by (simp add: payload_seen_def bytes_at_def fread_def Let_def bs_def
          sint_ucast_small [OF assms(2)])
  also have "\<dots> = bs"
    by (rule nth_equalityI) (simp_all add: len store_def)
  finally show ?thesis by (simp add: bs_def)
qed


lemma payload_seen_payload:
  assumes "holds_payload s sz" and "sz < 2147483648"
  shows "payload_seen buf s sz = chunk_payload s sz"
  using assms by (simp add: payload_seen_intact holds_payload_def chunk_payload_def)

lemma entry_size_int: "sz < BLOCK_SIZE \<Longrightarrow> sz < 2147483648"
  by (simp add: BLOCK_SIZE_def word_less_nat_alt)





lemma ucast_byte_cint: "(ucast (x::byte) :: cint) = of_nat (unat x)"
  by simp

lemma push_bit8_of_nat: "push_bit 8 (of_nat x :: cint) = of_nat (256 * x)"
  by (simp add: push_bit_eq_mult)

lemma readU16_of_nat: "readU16 m = of_nat (unat (m 0) + 256 * unat (m 1))"
proof -
  define k where "k = unat (m 0) + 256 * unat (m 1)"
  have "unat (m 0) < 2 ^ 8" "unat (m 1) < 2 ^ 8"
    using unsigned_less [of "m 0"] unsigned_less [of "m 1"] by simp_all
  then have k: "k < 2147483648" by (simp add: k_def)
  have "(ucast (m 0) :: cint) + push_bit 8 (ucast (m 1)) = of_nat k"
    by (simp only: ucast_byte_cint push_bit8_of_nat of_nat_add k_def)
  then have "readU16 m = scast (of_nat k :: cint)"
    by (simp only: readU16_def)
  also have "\<dots> = word_of_int (sint (of_nat k :: cint))"
    by (rule scast_eq)
  also have "\<dots> = of_nat k"
    by (simp only: sint_of_nat_small [OF k] of_int_of_nat_eq)
  finally show ?thesis by (simp only: k_def)
qed

lemma entry_name_length_min:
  assumes "10 < sz" and "sz < BLOCK_SIZE"
  shows "nat (sint (entry_name_length buf sz)) =
         min (unat (buf 8) + 256 * unat (buf 9)) (unat sz - 10)"
    and "scast (entry_name_length buf sz + 1) =
         (of_nat (min (unat (buf 8) + 256 * unat (buf 9)) (unat sz - 10) + 1) :: ulong)"
proof -
  define k where "k = unat (buf 8) + 256 * unat (buf 9)"
  have "unat (buf 8) < 2 ^ 8" "unat (buf 9) < 2 ^ 8"
    using unsigned_less [of "buf 8"] unsigned_less [of "buf 9"] by simp_all
  then have k: "k < 65536" by (simp add: k_def)
  have sz: "10 < unat sz" "unat sz < 65536"
    using assms by (simp_all add: BLOCK_SIZE_def word_less_nat_alt)
  have "readU16 (offset buf 8) = of_nat k"
    by (simp only: readU16_of_nat offset_def k_def) simp
  moreover have "(ucast (of_nat k :: ulong) :: cint) = of_nat (take_bit 64 k)"
    using unsigned_of_nat [where ?'b = 64 and ?'a = "32 word", of k] by simp
  moreover have "take_bit 64 k = k"
    using k by (simp add: take_bit_nat_eq_self)
  ultimately have nl: "(ucast (readU16 (offset buf 8)) :: cint) = of_nat k"
    by (simp only:)
  have "(ucast sz :: cint) = of_nat (unat sz)" by simp
  then have lim: "(ucast sz :: cint) - 10 = of_nat (unat sz - 10)"
    using sz by (simp add: of_nat_diff)
  have s1: "sint (of_nat k :: cint) = int k"
    using k by (intro sint_of_nat_small) simp
  have s2: "sint (of_nat (unat sz - 10) :: cint) = int (unat sz - 10)"
    using sz by (intro sint_of_nat_small) simp
  have len: "entry_name_length buf sz = of_nat (min k (unat sz - 10))"
    unfolding entry_name_length_def Let_def nl lim word_sless_alt s1 s2
    by (simp add: min_def)
  have lt: "min k (unat sz - 10) < 2147483648" "min k (unat sz - 10) + 1 < 2147483648"
    using k by simp_all
  show "nat (sint (entry_name_length buf sz)) = min (unat (buf 8) + 256 * unat (buf 9)) (unat sz - 10)"
    by (simp only: len sint_of_nat_small [OF lt(1)]) (simp add: k_def)
  have "entry_name_length buf sz + 1 = of_nat (min k (unat sz - 10) + 1)"
    by (simp add: len)
  then have "scast (entry_name_length buf sz + 1) =
      (scast (of_nat (min k (unat sz - 10) + 1) :: cint) :: ulong)"
    by (simp only:)
  also have "\<dots> = word_of_int (sint (of_nat (min k (unat sz - 10) + 1) :: cint))"
    by (rule scast_eq)
  also have "\<dots> = of_nat (min k (unat sz - 10) + 1)"
    by (simp only: sint_of_nat_small [OF lt(2)] of_int_of_nat_eq)
  finally show "scast (entry_name_length buf sz + 1) =
         (of_nat (min (unat (buf 8) + 256 * unat (buf 9)) (unat sz - 10) + 1) :: ulong)"
    by (simp add: k_def)
qed

lemma bytes_at_ucast:
  assumes "sz < (2147483648 :: ulong)"
  shows "bytes_at buf (ucast sz) = map buf [0..<unat sz]"
  by (simp add: bytes_at_def sint_ucast_small [OF assms])

lemma entry_name_payload:
  fixes buf :: mem and sz :: ulong
  defines "pl \<equiv> bytes_at buf (ucast sz)"
  assumes "10 < sz" and "sz < BLOCK_SIZE"
  shows "length pl = unat sz"
    and "entry_name buf sz =
         take (min (unat (pl ! 8) + 256 * unat (pl ! 9)) (unat sz - 10)) (drop 10 pl)"
proof -
  have sz: "10 < unat sz" "unat sz < 65536"
    using assms(2,3) by (simp_all add: BLOCK_SIZE_def word_less_nat_alt)
  have "sz < 2147483648"
    using sz by (simp add: word_less_nat_alt)
  then have pl: "pl = map buf [0..<unat sz]"
    unfolding pl_def by (rule bytes_at_ucast)
  show "length pl = unat sz" by (simp add: pl)
  have 89: "pl ! 8 = buf 8" "pl ! 9 = buf 9"
    using sz by (simp_all add: pl)
  define n where "n = min (unat (buf 8) + 256 * unat (buf 9)) (unat sz - 10)"
  have n: "10 + n \<le> unat sz" using sz by (simp add: n_def)
  have "take n (drop 10 pl) = map buf [10..<10 + n]"
    using n by (simp add: pl drop_map take_map drop_upt take_upt)
  also have "\<dots> = map (\<lambda>c. buf (10 + c)) [0..<n]"
    by (simp add: map_add_upt [symmetric] add.commute del: map_add_upt upt_Suc)
  finally show "entry_name buf sz =
         take (min (unat (pl ! 8) + 256 * unat (pl ! 9)) (unat sz - 10)) (drop 10 pl)"
    using entry_name_length_min(1) [OF assms(2,3), of buf]
    by (simp add: entry_name_def 89 n_def)
qed

text \<open>
  What a pass does with a file entry whose test passes, in terms of the \<open>size\<close> bytes of
  \<open>buffer\<close> after the read: the array \<open>output_file\<close> gets \<open>min name_length (size - 10)\<close> of
  them, from offset 10 on, and the file is looked up and created under the name that
  \<open>fopen\<close> reads from the array.
\<close>

lemma unpack_step_entry_name:
  fixes e :: env and st :: state and c :: chunk and in1 :: stream
  defines "pl \<equiv> payload_seen (buffer st) in1 (chunk_size c)"
  defines "name \<equiv>
     take (min (unat (pl ! 8) + 256 * unat (pl ! 9)) (unat (chunk_size c) - 10)) (drop 10 pl)"
  assumes "read_chunk_header (header_garbage e (stream_pos (inp st))) (inp st) = (c, in1)"
    and "chunk_id c = 1" and "10 < chunk_size c" and "chunk_size c < BLOCK_SIZE"
    and "update_adler32 1 pl = chunk_checksum c"
    and "malloc e Name_buf (stream_pos (inp st)) (of_nat (length name + 1)) \<noteq> None"
  shows "length pl = unat (chunk_size c) \<and>
     length name = min (unat (pl ! 8) + 256 * unat (pl ! 9)) (unat (chunk_size c) - 10) \<and>
     (\<exists>st'. unpack_step e st = Continue st' \<and>
        (if files st (c_string name) = None \<and> creatable e (c_string name)
         then output_file st' = Some name \<and> f_out st' = Some (c_string name) \<and>
              files st' = (files st)(c_string name \<mapsto> [])
         else output_file st' = None \<and> f_out st' = None \<and> files st' = files st)) \<and>
     (stream_pos in1 + unat (chunk_size c) \<le> length (stream_data in1) \<longrightarrow>
        pl = take (unat (chunk_size c)) (drop (stream_pos in1) (stream_data in1)))"
proof -
  define buf where "buf = store (buffer st) (fst (fread (unat (chunk_size c)) in1))"
  define n where "n = min (unat (pl ! 8) + 256 * unat (pl ! 9)) (unat (chunk_size c) - 10)"
  have pl: "pl = bytes_at buf (ucast (chunk_size c))"
    by (simp add: pl_def payload_seen_def buf_def)
  have len_pl: "length pl = unat (chunk_size c)"
    unfolding pl by (rule entry_name_payload(1) [OF assms(5,6)])
  have name: "entry_name buf (chunk_size c) = name"
    unfolding name_def pl by (rule entry_name_payload(2) [OF assms(5,6)])
  have len_name: "length name = n"
    using len_pl by (simp add: name_def n_def)
  have 89: "pl ! 8 = buf 8" "pl ! 9 = buf 9"
  proof -
    have "10 < unat (chunk_size c)" "chunk_size c < 2147483648"
      using assms(5,6) by (simp_all add: BLOCK_SIZE_def word_less_nat_alt)
    then show "pl ! 8 = buf 8" "pl ! 9 = buf 9"
      by (simp_all add: pl bytes_at_ucast)
  qed
  have m: "malloc e Name_buf (stream_pos (inp st))
             (scast (entry_name_length buf (chunk_size c) + 1)) \<noteq> None"
    using assms(8) entry_name_length_min(2) [OF assms(5,6), of buf]
    by (simp add: len_name n_def 89)
  define st3 where "st3 = st\<lparr>inp := snd (fread (unat (chunk_size c)) in1), buffer := buf,
      output_file := None, decompressed_size := readU32 buf, total_extracted := 0\<rparr>"
  define st1 where "st1 =
     (if files st (c_string name) = None \<and> creatable e (c_string name)
      then st3\<lparr>output_file := Some name, f_out := Some (c_string name),
               files := (files st)(c_string name \<mapsto> [])\<rparr>
      else st3\<lparr>output_file := None, f_out := None\<rparr>)"
  have entry: "file_entry_chunk e (stream_pos (inp st)) c (st\<lparr>inp := in1\<rparr>) = Continue st1"
    using assms(7) m
    by (auto simp: file_entry_chunk_def Let_def split_beta pl_def buf_def [symmetric] name
          st1_def st3_def)
  have step: "unpack_step e st =
      Continue (st1\<lparr>inp := fseek_set (inp st1)
                        (stream_pos (inp st) + 16 + unat (chunk_size c))\<rparr>)"
    using assms(4,5,6) entry by (simp add: unpack_step_unfold [OF assms(3)])
  have fields: "if files st (c_string name) = None \<and> creatable e (c_string name)
         then output_file st1 = Some name \<and> f_out st1 = Some (c_string name) \<and>
              files st1 = (files st)(c_string name \<mapsto> [])
         else output_file st1 = None \<and> f_out st1 = None \<and> files st1 = files st"
    by (simp add: st1_def st3_def)
  have "chunk_size c < 2147483648"
    using assms(6) by (simp add: BLOCK_SIZE_def word_less_nat_alt)
  then have intact: "stream_pos in1 + unat (chunk_size c) \<le> length (stream_data in1) \<longrightarrow>
        pl = take (unat (chunk_size c)) (drop (stream_pos in1) (stream_data in1))"
    by (simp add: pl_def payload_seen_intact)
  have "\<exists>st'. unpack_step e st = Continue st' \<and>
        (if files st (c_string name) = None \<and> creatable e (c_string name)
         then output_file st' = Some name \<and> f_out st' = Some (c_string name) \<and>
              files st' = (files st)(c_string name \<mapsto> [])
         else output_file st' = None \<and> f_out st' = None \<and> files st' = files st)"
  proof (intro exI conjI)
    show "unpack_step e st =
      Continue (st1\<lparr>inp := fseek_set (inp st1)
                        (stream_pos (inp st) + 16 + unat (chunk_size c))\<rparr>)"
      by (rule step)
    show "if files st (c_string name) = None \<and> creatable e (c_string name)
         then output_file (st1\<lparr>inp := fseek_set (inp st1)
                        (stream_pos (inp st) + 16 + unat (chunk_size c))\<rparr>) = Some name \<and>
              f_out (st1\<lparr>inp := fseek_set (inp st1)
                        (stream_pos (inp st) + 16 + unat (chunk_size c))\<rparr>) = Some (c_string name) \<and>
              files (st1\<lparr>inp := fseek_set (inp st1)
                        (stream_pos (inp st) + 16 + unat (chunk_size c))\<rparr>) =
                (files st)(c_string name \<mapsto> [])
         else output_file (st1\<lparr>inp := fseek_set (inp st1)
                        (stream_pos (inp st) + 16 + unat (chunk_size c))\<rparr>) = None \<and>
              f_out (st1\<lparr>inp := fseek_set (inp st1)
                        (stream_pos (inp st) + 16 + unat (chunk_size c))\<rparr>) = None \<and>
              files (st1\<lparr>inp := fseek_set (inp st1)
                        (stream_pos (inp st) + 16 + unat (chunk_size c))\<rparr>) = files st"
      using fields by (simp split: if_splits)
  qed
  with len_pl len_name intact show ?thesis
    by (simp only: n_def)
qed

text \<open>
  C7, as amended. For a chunk with \<open>id = 1\<close> and \<open>10 < size < BLOCK_SIZE\<close> whose payload the
  stream holds in full and whose checksum passes (and for whose name \<open>malloc\<close> has
  memory), the name copied from the payload has exactly \<open>min name_length (size - 10)\<close>
  bytes, where \<open>name_length\<close> is the 16-bit little-endian number at offset 8 of the payload,
  and they are the bytes of the payload from offset 10 on. The name of the output file is
  what \<open>fopen\<close> reads of it: these bytes up to the first 0 among them, all of them when
  none is 0. Whatever \<open>name_length\<close> is, the pass goes on: with the file of that name
  created and open when it did not exist and can be created, with no file open otherwise.
\<close>

theorem file_entry_name:
  fixes e :: env and st :: state and c :: chunk and in1 :: stream
  defines "pl \<equiv> chunk_payload in1 (chunk_size c)"
  defines "name \<equiv>
     take (min (unat (pl ! 8) + 256 * unat (pl ! 9)) (unat (chunk_size c) - 10)) (drop 10 pl)"
  assumes "read_chunk_header (header_garbage e (stream_pos (inp st))) (inp st) = (c, in1)"
    and "chunk_id c = 1" and "10 < chunk_size c" and "chunk_size c < BLOCK_SIZE"
    and "holds_payload in1 (chunk_size c)"
    and "update_adler32 1 pl = chunk_checksum c"
    and "malloc e Name_buf (stream_pos (inp st)) (of_nat (length name + 1)) \<noteq> None"
  shows "length pl = unat (chunk_size c) \<and>
     length name = min (unat (pl ! 8) + 256 * unat (pl ! 9)) (unat (chunk_size c) - 10) \<and>
     (\<exists>st'. unpack_step e st = Continue st' \<and>
        (if files st (takeWhile (\<lambda>b. b \<noteq> 0) name) = None \<and>
            creatable e (takeWhile (\<lambda>b. b \<noteq> 0) name)
         then output_file st' = Some name \<and> f_out st' = Some (takeWhile (\<lambda>b. b \<noteq> 0) name) \<and>
              files st' = (files st)(takeWhile (\<lambda>b. b \<noteq> 0) name \<mapsto> [])
         else output_file st' = None \<and> f_out st' = None \<and> files st' = files st)) \<and>
     (0 \<notin> set name \<longrightarrow> takeWhile (\<lambda>b. b \<noteq> 0) name = name)"
proof -
  have ps: "payload_seen (buffer st) in1 (chunk_size c) = pl"
    unfolding pl_def using assms(7) entry_size_int [OF assms(6)] by (rule payload_seen_payload)
  have ck: "update_adler32 1 (payload_seen (buffer st) in1 (chunk_size c)) = chunk_checksum c"
    using assms(8) by (simp add: ps)
  have m: "malloc e Name_buf (stream_pos (inp st))
      (of_nat (length (take (min (unat (payload_seen (buffer st) in1 (chunk_size c) ! 8) +
                                  256 * unat (payload_seen (buffer st) in1 (chunk_size c) ! 9))
                                 (unat (chunk_size c) - 10))
                         (drop 10 (payload_seen (buffer st) in1 (chunk_size c)))) + 1)) \<noteq> None"
    using assms(9) unfolding ps name_def .
  have z: "takeWhile (\<lambda>b. b \<noteq> 0) name = name" if "0 \<notin> set name"
    using that by (intro takeWhile_eq_all_conv [THEN iffD2]) auto
  from unpack_step_entry_name [OF assms(3,4,5,6) ck m] z
  show ?thesis
    unfolding ps name_def [symmetric] c_string_def by simp
qed

theorem file_entry_name_witness:
  "holds_payload \<lparr>stream_data = long_name_archive, stream_pos = 24\<rparr> 19 \<and>
   chunk_payload \<lparr>stream_data = long_name_archive, stream_pos = 24\<rparr> 19 =
     [5, 0, 0, 0, 0, 0, 0, 0, 44, 1, 104, 101, 108, 108, 111, 46, 116, 120, 116] \<and>
   min (unat (44 :: byte) + 256 * unat (1 :: byte)) (unat (19 :: ulong) - 10) = 9 \<and>
   (\<exists>st'. unpack_step env0 long_name_start = Continue st' \<and>
      output_file st' = Some [104, 101, 108, 108, 111, 46, 116, 120, 116] \<and>
      f_out st' = Some [104, 101, 108, 108, 111, 46, 116, 120, 116] \<and>
      files st' = (files long_name_start)([104, 101, 108, 108, 111, 46, 116, 120, 116] \<mapsto> []))"
proof -
  define c where "c = \<lparr>chunk_id = 1, chunk_options = 0, chunk_size = 19,
      chunk_checksum = 340722645, chunk_extra = 0\<rparr>"
  define in1 where "in1 = \<lparr>stream_data = long_name_archive, stream_pos = 24\<rparr>"
  have 1: "read_chunk_header (header_garbage env0 (stream_pos (inp long_name_start)))
             (inp long_name_start) = (c, in1)"
    unfolding c_def in1_def by code_simp
  have 2: "chunk_id c = 1" "10 < chunk_size c" "chunk_size c < BLOCK_SIZE"
    by (simp_all add: c_def BLOCK_SIZE_def)
  have cs: "chunk_size c = 19" by (simp add: c_def)
  have 3: "holds_payload in1 (chunk_size c)"
    by (simp add: holds_payload_def in1_def c_def long_name_archive_def)
  have pl: "chunk_payload in1 19 =
      [5, 0, 0, 0, 0, 0, 0, 0, 44, 1, 104, 101, 108, 108, 111, 46, 116, 120, 116]"
    by (simp add: chunk_payload_def in1_def long_name_archive_def)
  have 4: "update_adler32 1 (chunk_payload in1 (chunk_size c)) = chunk_checksum c"
    unfolding c_def in1_def by code_simp
  have 5: "malloc env0 Name_buf (stream_pos (inp long_name_start)) n \<noteq> None" for n
    by (simp add: env0_def)
  have 6: "files long_name_start [104, 101, 108, 108, 111, 46, 116, 120, 116] = None"
    "creatable env0 [104, 101, 108, 108, 111, 46, 116, 120, 116]"
    by (simp_all add: long_name_start_def hello_start_def hello_fs_def env0_def)
  have "\<exists>st'. unpack_step env0 long_name_start = Continue st' \<and>
      output_file st' = Some [104, 101, 108, 108, 111, 46, 116, 120, 116] \<and>
      f_out st' = Some [104, 101, 108, 108, 111, 46, 116, 120, 116] \<and>
      files st' = (files long_name_start)([104, 101, 108, 108, 111, 46, 116, 120, 116] \<mapsto> [])"
    using file_entry_name [OF 1 2 3 4 5] 6 by (simp add: cs pl)
  then show ?thesis
    using 3 pl by (simp add: cs in1_def)
qed

text \<open>
  C7 as stated fails on two inputs. The entry whose payload gives \<open>name_length = 5\<close> and the
  name bytes \<open>a\<close>, \<open>b\<close>, 0, \<open>c\<close>, \<open>d\<close> passes its checksum, \<open>min 5 (15 - 10) = 5\<close>, and the file
  created has the name \<open>ab\<close> of 2 bytes: \<open>fopen\<close> reads the name up to the first 0. And on
  the stream that ends inside the payload of its second entry, the payload has the one
  name byte \<open>j\<close> from offset 10 on, while the pass takes the name \<open>jello.txt\<close> from \<open>buffer\<close>.
\<close>

theorem file_name_not_the_payload_bytes:
  "read_chunk_header (header_garbage env0 8) (inp nul_name_start) =
     (\<lparr>chunk_id = 1, chunk_options = 0, chunk_size = 15, chunk_checksum = 85197205,
        chunk_extra = 0\<rparr>,
      \<lparr>stream_data = nul_name_archive, stream_pos = 24\<rparr>) \<and>
   chunk_payload \<lparr>stream_data = nul_name_archive, stream_pos = 24\<rparr> 15 =
     [5, 0, 0, 0, 0, 0, 0, 0, 5, 0, 97, 98, 0, 99, 100] \<and>
   update_adler32 1 [5, 0, 0, 0, 0, 0, 0, 0, 5, 0, 97, 98, 0, 99, 100] = 85197205 \<and>
   f_out (next_state (unpack_step env0 nul_name_start)) = Some [97, 98] \<and>
   fst (unpack_file env0 (Map.empty([120] \<mapsto> nul_name_archive)) [120]) = Returned 0 \<and>
   snd (unpack_file env0 (Map.empty([120] \<mapsto> nul_name_archive)) [120]) [97, 98] = Some [] \<and>
   snd (unpack_file env0 (Map.empty([120] \<mapsto> nul_name_archive)) [120]) [97, 98, 0, 99, 100] = None \<and>
   drop 10 (chunk_payload \<lparr>stream_data = truncated_archive, stream_pos = 59\<rparr> 19) = [106] \<and>
   is_Continue (unpack_step env0 (next_state (unpack_step env0 truncated_start))) \<and>
   f_out (next_state (unpack_step env0 (next_state (unpack_step env0 truncated_start)))) =
     Some jello_name"
  by code_simp

section \<open>Data chunks\<close>

lemma update_adler32_le: "update_adler32 c bs \<le> 0xffffffff"
proof -
  define s where "s = sums_after (halves c) bs"
  have "fst s < 65536" "snd s < 65536"
    using sums_after_lt16 [of "halves c" bs] halves_lt [of c] by (simp_all add: s_def)
  then have p: "pack s < 4294967296" by (simp add: pack_def)
  then have "unat (of_nat (pack s) :: ulong) = pack s"
    by (intro unat_of_nat64) simp
  with p show ?thesis
    by (simp add: update_adler32_sums s_def [symmetric] word_le_nat_alt)
qed

lemma update_adler32_Nil_small: "c \<le> 0xffffffff \<Longrightarrow> update_adler32 c [] = c"
proof -
  assume "c \<le> 0xffffffff"
  then have "c < 2 ^ 32"
    by (simp add: word_less_nat_alt word_le_nat_alt)
  then have "c AND mask 32 = c"
    by (rule less_mask_eq)
  then show ?thesis by (simp add: update_adler32_Nil mask_eq_exp_minus_1)
qed

lemma bytes_at_of_nat:
  assumes "n < 2147483648"
  shows "bytes_at buf (of_nat n) = map buf [0..<n]"
  by (simp add: bytes_at_def sint_of_nat_small [OF assms])

lemma map_store_same: "map (store buf bs) [0..<length bs] = bs"
  by (rule nth_equalityI) (simp_all add: store_def)

lemma files_fwrite_fwrite:
  "files (fwrite ys (fwrite xs st)) = files (fwrite (xs @ ys) st)"
  by (auto simp: fwrite_def split: option.splits)

lemma fwrite_Nil_files:
  "f_out st = Some name \<Longrightarrow> files st name \<noteq> None \<Longrightarrow> files (fwrite [] st) = files st"
  by (auto simp: fwrite_def fun_eq_iff split: option.splits)

lemma stored_loop_unfold_stop:
  assumes "stored_payload st remaining = []"
  shows "stored_loop st remaining ck = (st, ck)"
proof -
  define r where "r = (if BLOCK_SIZE < remaining then BLOCK_SIZE else remaining)"
  have "unat r = min 65536 (unat remaining)"
    by (auto simp: r_def BLOCK_SIZE_def word_less_nat_alt)
  then have e: "take (unat r) (drop (stream_pos (inp st)) (stream_data (inp st))) = []"
    using assms by (auto simp: stored_payload_def min_def split: if_splits)
  have "fread (unat r) (inp st) = ([], (inp st)\<lparr>stream_pos := stream_pos (inp st) + length ([] :: byte list)\<rparr>)"
    unfolding fread_def Let_def e by (rule refl)
  then have "fread (unat r) (inp st) = ([], inp st)"
    by simp
  then show ?thesis
    by (subst stored_loop.simps) (simp add: r_def [symmetric] Let_def)
qed

lemma stored_loop_unfold_go:
  assumes "stored_payload st remaining \<noteq> []"
  defines "r \<equiv> (if BLOCK_SIZE < remaining then BLOCK_SIZE else remaining)"
  defines "bs \<equiv> take (unat r) (drop (stream_pos (inp st)) (stream_data (inp st)))"
  shows "bs \<noteq> []" and "length bs \<le> 65536" and "length bs \<le> unat remaining"
    and "stored_loop st remaining ck =
         stored_loop
           (fwrite bs (st\<lparr>inp := (inp st)\<lparr>stream_pos := stream_pos (inp st) + length bs\<rparr>,
                          buffer := store (buffer st) bs\<rparr>))
           (remaining - of_nat (length bs)) (update_adler32 ck bs)"
    and "stored_payload st remaining =
         bs @ stored_payload
                (fwrite bs (st\<lparr>inp := (inp st)\<lparr>stream_pos := stream_pos (inp st) + length bs\<rparr>,
                               buffer := store (buffer st) bs\<rparr>))
                (remaining - of_nat (length bs))"
proof -
  have r: "unat r = min 65536 (unat remaining)"
    by (auto simp: r_def BLOCK_SIZE_def word_less_nat_alt)
  have pne: "unat remaining \<noteq> 0" "drop (stream_pos (inp st)) (stream_data (inp st)) \<noteq> []"
    using assms(1) by (auto simp: stored_payload_def)
  show ne: "bs \<noteq> []"
    using pne r by (auto simp: bs_def)
  show le: "length bs \<le> 65536" and le2: "length bs \<le> unat remaining"
    using r by (simp_all add: bs_def)
  have fr: "fread (unat r) (inp st) =
      (bs, (inp st)\<lparr>stream_pos := stream_pos (inp st) + length bs\<rparr>)"
    unfolding fread_def Let_def bs_def by (rule refl)
  have ba: "bytes_at (store (buffer st) bs) (of_nat (length bs)) = bs"
    using le by (simp add: bytes_at_of_nat map_store_same)
  show "stored_loop st remaining ck =
         stored_loop
           (fwrite bs (st\<lparr>inp := (inp st)\<lparr>stream_pos := stream_pos (inp st) + length bs\<rparr>,
                          buffer := store (buffer st) bs\<rparr>))
           (remaining - of_nat (length bs)) (update_adler32 ck bs)"
    using ne
    by (subst stored_loop.simps)
       (simp add: r_def [symmetric] fr Let_def map_store_same ba)
  have ul: "unat (of_nat (length bs) :: ulong) = length bs"
    using le by (intro unat_of_nat64) simp
  have u: "unat (remaining - of_nat (length bs)) = unat remaining - length bs"
    using le2 by (simp add: unat_sub_if' ul)
  have bs': "bs = take (length bs) (drop (stream_pos (inp st)) (stream_data (inp st)))"
    by (simp add: bs_def min_def)
  have "take (unat remaining) (drop (stream_pos (inp st)) (stream_data (inp st))) =
        take (length bs + (unat remaining - length bs)) (drop (stream_pos (inp st)) (stream_data (inp st)))"
    using le2 by simp
  also have "\<dots> = bs @ take (unat remaining - length bs)
        (drop (stream_pos (inp st) + length bs) (stream_data (inp st)))"
    unfolding take_add using bs' by (simp add: add.commute)
  finally show "stored_payload st remaining =
         bs @ stored_payload
                (fwrite bs (st\<lparr>inp := (inp st)\<lparr>stream_pos := stream_pos (inp st) + length bs\<rparr>,
                               buffer := store (buffer st) bs\<rparr>))
                (remaining - of_nat (length bs))"
    by (simp add: stored_payload_def fwrite_frame u)
qed

lemma stored_loop_result:
  assumes "ck \<le> 0xffffffff"
  shows "snd (stored_loop st remaining ck) = update_adler32 ck (stored_payload st remaining) \<and>
         files (fst (stored_loop st remaining ck)) =
           (if stored_payload st remaining = [] then files st
            else files (fwrite (stored_payload st remaining) st)) \<and>
         f_out (fst (stored_loop st remaining ck)) = f_out st \<and>
         output_file (fst (stored_loop st remaining ck)) = output_file st \<and>
         total_extracted (fst (stored_loop st remaining ck)) = total_extracted st"
  using assms
proof (induction "length (stored_payload st remaining)" arbitrary: st remaining ck rule: less_induct)
  case less
  show ?case
  proof (cases "stored_payload st remaining = []")
    case True
    then show ?thesis
      using less.prems by (simp add: stored_loop_unfold_stop update_adler32_Nil_small)
  next
    case False
    define r where "r = (if BLOCK_SIZE < remaining then BLOCK_SIZE else remaining)"
    define bs where "bs = take (unat r) (drop (stream_pos (inp st)) (stream_data (inp st)))"
    define st1 where "st1 = fwrite bs
        (st\<lparr>inp := (inp st)\<lparr>stream_pos := stream_pos (inp st) + length bs\<rparr>,
            buffer := store (buffer st) bs\<rparr>)"
    define rem1 where "rem1 = remaining - of_nat (length bs)"
    note go = stored_loop_unfold_go [OF False, folded r_def, folded bs_def, folded st1_def,
        folded rem1_def]
    have pay: "stored_payload st remaining = bs @ stored_payload st1 rem1"
      by (rule go(5))
    have shorter: "length (stored_payload st1 rem1) < length (stored_payload st remaining)"
      using go(1) by (simp add: pay)
    have ck1: "update_adler32 ck bs \<le> 0xffffffff"
      by (rule update_adler32_le)
    note ih = less.hyps [OF shorter ck1]
    have loop: "stored_loop st remaining ck = stored_loop st1 rem1 (update_adler32 ck bs)"
      by (rule go(4))
    have f1: "f_out st1 = f_out st" "output_file st1 = output_file st"
      "total_extracted st1 = total_extracted st"
      by (simp_all add: st1_def fwrite_frame)
    have files1: "files st1 = files (fwrite bs st)"
      by (simp add: st1_def fwrite_def split: option.splits)
    have files2: "files (fwrite (stored_payload st1 rem1) st1) =
                  files (fwrite (bs @ stored_payload st1 rem1) st)"
      using files1 f1(1) by (auto simp: fwrite_def split: option.splits)
    show ?thesis
      unfolding loop
      using ih go(1)
      by (simp add: pay update_adler32_append f1 files1 files2)
  qed
qed

text \<open>What a stored chunk leaves.\<close>

lemma stored_chunk_result:
  defines "payload \<equiv> \<lambda>st c. stored_payload st (chunk_size c)"
  shows "\<exists>st'. stored_chunk c st = Continue st' \<and>
     total_extracted st' = total_extracted st + chunk_size c \<and>
     files st' = (if payload st c = [] then files st else files (fwrite (payload st c) st)) \<and>
     (if update_adler32 1 (payload st c) \<noteq> chunk_checksum c
      then f_out st' = None \<and> output_file st' = None
      else f_out st' = f_out st \<and> output_file st' = output_file st)"
proof -
  define st1 where "st1 = st\<lparr>total_extracted := total_extracted st + chunk_size c\<rparr>"
  have p: "stored_payload st1 (chunk_size c) = payload st c"
    by (simp add: st1_def stored_payload_def payload_def)
  have fw: "files (fwrite bs st1) = files (fwrite bs st)" for bs
    by (simp add: st1_def fwrite_def split: option.splits)
  obtain st2 ck where l: "stored_loop st1 (chunk_size c) 1 = (st2, ck)"
    by (cases "stored_loop st1 (chunk_size c) 1")
  have res: "ck = update_adler32 1 (payload st c)"
    "files st2 = (if payload st c = [] then files st else files (fwrite (payload st c) st))"
    "f_out st2 = f_out st" "output_file st2 = output_file st"
    "total_extracted st2 = total_extracted st + chunk_size c"
    using stored_loop_result [of 1 st1 "chunk_size c"] l
    by (simp_all add: p fw) (simp_all add: st1_def)
  have "stored_chunk c st = Continue (if ck \<noteq> chunk_checksum c then abandon st2 else st2)"
    by (simp add: stored_chunk_def Let_def st1_def [symmetric] l)
  then show ?thesis
    using res by (auto simp: abandon_frame)
qed

lemma fwrite_other:
  "f_out st = Some name \<Longrightarrow> other \<noteq> name \<Longrightarrow> files (fwrite bs st) other = files st other"
  by (simp add: fwrite_def)

lemma fwrite_same:
  "f_out st = Some name \<Longrightarrow> files st name = Some old \<Longrightarrow>
   files (fwrite bs st) name = Some (old @ bs)"
  by (simp add: fwrite_def)

lemma compressed_chunk_error:
  assumes "compressed_buffer (grow_buffers e p c st) = Some cbuf"
    and "update_adler32 1 (payload_seen cbuf (inp st) (chunk_size c)) \<noteq> chunk_checksum c \<or>
         fst (decompress_call e c
                (store cbuf (fst (fread (unat (chunk_size c)) (inp st))))
                (decompressed_buffer (grow_buffers e p c st))) \<noteq> chunk_extra c"
  shows "\<exists>st'. compressed_chunk e p c st = Continue st' \<and> f_out st' = None \<and>
           output_file st' = None \<and> files st' = files st \<and>
           total_extracted st' = total_extracted st + chunk_extra c"
  using assms
  by (auto simp: compressed_chunk_def Let_def split_beta grow_buffers_frame abandon_def)

lemma file_data_chunk_error:
  assumes "data_chunk_error e p c st" and "f_out st = Some name"
  shows "\<exists>st'. file_data_chunk e p c st = Continue st' \<and> f_out st' = None \<and>
           output_file st' = None \<and>
           (\<forall>other. other \<noteq> name \<longrightarrow> files st' other = files st other) \<and>
           (\<forall>old. files st name = Some old \<longrightarrow> (\<exists>written. files st' name = Some (old @ written)))"
proof (cases "chunk_options c = 0")
  case True
  obtain st' where s: "stored_chunk c st = Continue st'"
    "files st' = (if stored_payload st (chunk_size c) = [] then files st
                  else files (fwrite (stored_payload st (chunk_size c)) st))"
    "if update_adler32 1 (stored_payload st (chunk_size c)) \<noteq> chunk_checksum c
      then f_out st' = None \<and> output_file st' = None
      else f_out st' = f_out st \<and> output_file st' = output_file st"
    using stored_chunk_result [of c st] by blast
  have "update_adler32 1 (stored_payload st (chunk_size c)) \<noteq> chunk_checksum c"
    using assms(1) True by (simp add: data_chunk_error_def)
  with s(3) have "f_out st' = None" "output_file st' = None" by simp_all
  moreover have "files st' other = files st other" if "other \<noteq> name" for other
    using that assms(2) by (simp add: s(2) fwrite_other)
  moreover have "\<exists>written. files st' name = Some (old @ written)" if "files st name = Some old" for old
  proof (cases "stored_payload st (chunk_size c) = []")
    case True
    then show ?thesis using that by (simp add: s(2))
  next
    case False
    then show ?thesis using that assms(2) by (simp add: s(2) fwrite_same)
  qed
  ultimately show ?thesis
    using True s(1) by (auto simp: file_data_chunk_def)
next
  case not0: False
  show ?thesis
  proof (cases "chunk_options c = 1")
    case True
    from assms(1) not0 True obtain cbuf where
      cb: "compressed_buffer (grow_buffers e p c st) = Some cbuf"
      and err: "update_adler32 1 (payload_seen cbuf (inp st) (chunk_size c)) \<noteq> chunk_checksum c \<or>
         fst (decompress_call e c
                (store cbuf (fst (fread (unat (chunk_size c)) (inp st))))
                (decompressed_buffer (grow_buffers e p c st))) \<noteq> chunk_extra c"
      by (auto simp: data_chunk_error_def split: option.splits)
    from compressed_chunk_error [OF cb err] obtain st' where
      "compressed_chunk e p c st = Continue st'" "f_out st' = None"
      "output_file st' = None" "files st' = files st"
      by blast
    then show ?thesis
      using not0 True by (auto simp: file_data_chunk_def)
  next
    case False
    then show ?thesis
      using not0 by (auto simp: file_data_chunk_def abandon_def)
  qed
qed

text \<open>
  What a pass does with a data chunk on which one of the tests of the code fails: the
  tests of a compressed chunk are on the \<open>size\<close> bytes of \<open>compressed_buffer\<close> after the
  read.
\<close>

lemma unpack_step_chunk_error:
  assumes "read_chunk_header (header_garbage e (stream_pos (inp st))) (inp st) = (c, in1)"
    and "chunk_id c = 17" and "f_out st = Some name" and "output_file st \<noteq> None"
    and "decompressed_size st \<noteq> 0"
    and "data_chunk_error e (stream_pos (inp st)) c (st\<lparr>inp := in1\<rparr>)"
    and "stream_pos (inp st) < fsize"
  shows "\<exists>st'. unpack_step e st = Continue st' \<and> f_out st' = None \<and> output_file st' = None \<and>
           stream_pos (inp st') = stream_pos (inp st) + 16 + unat (chunk_size c) \<and>
           (\<forall>other. other \<noteq> name \<longrightarrow> files st' other = files st other) \<and>
           (\<forall>old. files st name = Some old \<longrightarrow>
                  (\<exists>written. files st' name = Some (old @ written))) \<and>
           unpack_loop e fsize st = unpack_loop e fsize st' \<and>
           (fsize \<le> stream_pos (inp st') \<longrightarrow> unpack_loop e fsize st = (Returned 0, finish st'))"
proof -
  define st1 where "st1 = st\<lparr>inp := in1\<rparr>"
  have open1: "f_out st1 = Some name" "output_file st1 \<noteq> None" "decompressed_size st1 \<noteq> 0"
    "files st1 = files st"
    using assms(3,4,5) by (simp_all add: st1_def)
  from file_data_chunk_error [OF assms(6) [folded st1_def] open1(1)]
  obtain st2 where d: "file_data_chunk e (stream_pos (inp st)) c st1 = Continue st2"
    "f_out st2 = None" "output_file st2 = None"
    "\<forall>other. other \<noteq> name \<longrightarrow> files st2 other = files st1 other"
    "\<forall>old. files st1 name = Some old \<longrightarrow> (\<exists>written. files st2 name = Some (old @ written))"
    by blast
  define st' where "st' = st2\<lparr>inp := fseek_set (inp st2)
      (stream_pos (inp st) + 16 + unat (chunk_size c))\<rparr>"
  have step: "unpack_step e st = Continue st'"
    using assms(2) open1 d(1)
    by (simp add: unpack_step_unfold [OF assms(1)] st1_def [symmetric] st'_def)
  have loop: "unpack_loop e fsize st = unpack_loop e fsize st'"
    using assms(7) step by (subst unpack_loop.simps) (simp add: ftell_def)
  have fin: "unpack_loop e fsize st' = (Returned 0, finish st')" if "fsize \<le> stream_pos (inp st')"
    using that by (subst unpack_loop.simps) (simp add: ftell_def)
  have fields: "f_out st' = None" "output_file st' = None" "files st' = files st2"
    "stream_pos (inp st') = stream_pos (inp st) + 16 + unat (chunk_size c)"
    using d(2,3) by (simp_all add: st'_def fseek_set_def)
  show ?thesis
  proof (intro exI conjI)
    show "unpack_step e st = Continue st'" by (rule step)
    show "f_out st' = None" "output_file st' = None" by (rule fields)+
    show "stream_pos (inp st') = stream_pos (inp st) + 16 + unat (chunk_size c)"
      by (rule fields)
    show "\<forall>other. other \<noteq> name \<longrightarrow> files st' other = files st other"
      using d(4) by (simp add: fields open1)
    show "\<forall>old. files st name = Some old \<longrightarrow> (\<exists>written. files st' name = Some (old @ written))"
      using d(5) by (simp add: fields open1)
    show "unpack_loop e fsize st = unpack_loop e fsize st'" by (rule loop)
    show "fsize \<le> stream_pos (inp st') \<longrightarrow> unpack_loop e fsize st = (Returned 0, finish st')"
      using fin by (simp add: loop)
  qed
qed

lemma integrity_error_seen:
  assumes "integrity_error e p c st"
    and "chunk_options c = 1 \<longrightarrow>
           compressed_buffer (grow_buffers e p c st) \<noteq> None \<and>
           chunk_size c < 2147483648 \<and> holds_payload (inp st) (chunk_size c)"
  shows "data_chunk_error e p c st"
proof (cases "chunk_options c = 1")
  case True
  with assms(2) obtain cbuf where cb: "compressed_buffer (grow_buffers e p c st) = Some cbuf"
    and sz: "chunk_size c < 2147483648" and h: "holds_payload (inp st) (chunk_size c)"
    by auto
  have ps: "payload_seen cbuf (inp st) (chunk_size c) = chunk_payload (inp st) (chunk_size c)"
    using h sz by (rule payload_seen_payload)
  have "bytes_at (store cbuf (fst (fread (unat (chunk_size c)) (inp st)))) (ucast (chunk_size c)) =
        chunk_payload (inp st) (chunk_size c)"
    using ps by (simp add: payload_seen_def)
  then show ?thesis
    using assms(1) True cb ps
    by (simp add: data_chunk_error_def integrity_error_def decompress_call_def split_beta)
next
  case False
  then show ?thesis
    using assms(1)
    by (auto simp: data_chunk_error_def integrity_error_def stored_payload_def chunk_payload_def
             split: if_splits)
qed

text \<open>
  C2, as amended. When a pass of the main loop reads the header of a chunk with \<open>id = 17\<close>
  while a file is open (and its announced size is not 0), and the chunk has an integrity
  error (the checksum of the payload does not match, or the decompressed length is not
  \<open>extra\<close>, or \<open>options\<close> is neither 0 nor 1), where a compressed chunk is one that finds its
  input buffer there once the buffers have been enlarged, whose \<open>size\<close> is below \<open>2 ^ 31\<close>
  and whose payload the stream holds in full, then the pass goes on: it leaves no file
  open and no name, every other file as it was, and the file that was open on disk with
  what had been written to it (and, for a stored chunk, the bytes of this chunk). The
  loop continues at the next chunk, and when the stream ends there \<open>unpack_file\<close> returns 0.
\<close>

theorem data_chunk_error_abandons:
  assumes "read_chunk_header (header_garbage e (stream_pos (inp st))) (inp st) = (c, in1)"
    and "chunk_id c = 17" and "f_out st = Some name" and "output_file st \<noteq> None"
    and "decompressed_size st \<noteq> 0"
    and "integrity_error e (stream_pos (inp st)) c (st\<lparr>inp := in1\<rparr>)"
    and "chunk_options c = 1 \<longrightarrow>
           compressed_buffer (grow_buffers e (stream_pos (inp st)) c (st\<lparr>inp := in1\<rparr>)) \<noteq> None \<and>
           chunk_size c < 2147483648 \<and> holds_payload in1 (chunk_size c)"
    and "stream_pos (inp st) < fsize"
  shows "\<exists>st'. unpack_step e st = Continue st' \<and> f_out st' = None \<and> output_file st' = None \<and>
           stream_pos (inp st') = stream_pos (inp st) + 16 + unat (chunk_size c) \<and>
           (\<forall>other. other \<noteq> name \<longrightarrow> files st' other = files st other) \<and>
           (\<forall>old. files st name = Some old \<longrightarrow>
                  (\<exists>written. files st' name = Some (old @ written))) \<and>
           unpack_loop e fsize st = unpack_loop e fsize st' \<and>
           (fsize \<le> stream_pos (inp st') \<longrightarrow> unpack_loop e fsize st = (Returned 0, finish st'))"
proof -
  have "data_chunk_error e (stream_pos (inp st)) c (st\<lparr>inp := in1\<rparr>)"
    using assms(6,7) by (intro integrity_error_seen) simp_all
  from unpack_step_chunk_error [OF assms(1,2,3,4,5) this assms(8)]
  show ?thesis .
qed

theorem data_chunk_error_abandons_witness:
  "(\<exists>st'. unpack_step env0 (hello_open bad_stored_chunk) = Continue st' \<and>
      f_out st' = None \<and> output_file st' = None \<and> stream_pos (inp st') = 64 \<and>
      (\<exists>written. files st' hello_name = Some written) \<and>
      unpack_loop env0 64 (hello_open bad_stored_chunk) = (Returned 0, finish st')) \<and>
   (\<exists>st'. unpack_step env0 (hello_open unknown_options_chunk) = Continue st' \<and>
      f_out st' = None \<and> output_file st' = None \<and> stream_pos (inp st') = 64 \<and>
      (\<exists>written. files st' hello_name = Some written) \<and>
      unpack_loop env0 64 (hello_open unknown_options_chunk) = (Returned 0, finish st')) \<and>
   (\<exists>st'. unpack_step env0 (hello_open bad_length_chunk) = Continue st' \<and>
      f_out st' = None \<and> output_file st' = None \<and> stream_pos (inp st') = 64 \<and>
      (\<exists>written. files st' hello_name = Some written) \<and>
      unpack_loop env0 64 (hello_open bad_length_chunk) = (Returned 0, finish st')) \<and>
   (\<exists>st'. unpack_step env0 (hello_open bad_compressed_chunk) = Continue st' \<and>
      f_out st' = None \<and> output_file st' = None \<and> stream_pos (inp st') = 64 \<and>
      (\<exists>written. files st' hello_name = Some written) \<and>
      unpack_loop env0 64 (hello_open bad_compressed_chunk) = (Returned 0, finish st'))"
proof -
  have inst: "\<exists>st'. unpack_step env0 (hello_open X) = Continue st' \<and>
      f_out st' = None \<and> output_file st' = None \<and> stream_pos (inp st') = 64 \<and>
      (\<exists>written. files st' hello_name = Some written) \<and>
      unpack_loop env0 64 (hello_open X) = (Returned 0, finish st')"
    if h: "read_chunk_header (header_garbage env0 (stream_pos (inp (hello_open X))))
             (inp (hello_open X)) = (c, in1)"
      and c: "chunk_id c = 17" "chunk_size c = 5"
      and err: "integrity_error env0 (stream_pos (inp (hello_open X))) c
                  ((hello_open X)\<lparr>inp := in1\<rparr>)"
      and whole: "holds_payload in1 5"
    for X c in1
  proof -
    have o: "f_out (hello_open X) = Some hello_name" "output_file (hello_open X) \<noteq> None"
      "decompressed_size (hello_open X) \<noteq> 0" "stream_pos (inp (hello_open X)) < 64"
      "stream_pos (inp (hello_open X)) = 43" "files (hello_open X) hello_name = Some []"
      by (simp_all add: hello_open_def)
    have ready: "chunk_options c = 1 \<longrightarrow>
           compressed_buffer (grow_buffers env0 (stream_pos (inp (hello_open X))) c
             ((hello_open X)\<lparr>inp := in1\<rparr>)) \<noteq> None \<and>
           chunk_size c < 2147483648 \<and> holds_payload in1 (chunk_size c)"
      using whole by (simp add: c(2) grow_buffers_def hello_open_def env0_def Let_def)
    from data_chunk_error_abandons [OF h c(1) o(1,2,3) err ready o(4)]
    obtain st' where s: "unpack_step env0 (hello_open X) = Continue st'"
      "f_out st' = None" "output_file st' = None"
      "stream_pos (inp st') = stream_pos (inp (hello_open X)) + 16 + unat (chunk_size c)"
      "\<forall>old. files (hello_open X) hello_name = Some old \<longrightarrow>
           (\<exists>written. files st' hello_name = Some (old @ written))"
      "64 \<le> stream_pos (inp st') \<longrightarrow> unpack_loop env0 64 (hello_open X) = (Returned 0, finish st')"
      by blast
    have p: "stream_pos (inp st') = 64" by (simp add: s(4) o(5) c(2))
    have "\<exists>written. files st' hello_name = Some written"
      using s(5) o(6) by auto
    with s p show ?thesis by auto
  qed
  have 1: "read_chunk_header (header_garbage env0 (stream_pos (inp (hello_open bad_stored_chunk))))
             (inp (hello_open bad_stored_chunk)) =
           (\<lparr>chunk_id = 17, chunk_options = 0, chunk_size = 5, chunk_checksum = 111542826,
              chunk_extra = 5\<rparr>,
            \<lparr>stream_data = take 43 hello_archive @ bad_stored_chunk, stream_pos = 59\<rparr>)"
    by code_simp
  have 2: "read_chunk_header (header_garbage env0 (stream_pos (inp (hello_open unknown_options_chunk))))
             (inp (hello_open unknown_options_chunk)) =
           (\<lparr>chunk_id = 17, chunk_options = 2, chunk_size = 5, chunk_checksum = 111542825,
              chunk_extra = 5\<rparr>,
            \<lparr>stream_data = take 43 hello_archive @ unknown_options_chunk, stream_pos = 59\<rparr>)"
    by code_simp
  have 3: "read_chunk_header (header_garbage env0 (stream_pos (inp (hello_open bad_length_chunk))))
             (inp (hello_open bad_length_chunk)) =
           (\<lparr>chunk_id = 17, chunk_options = 1, chunk_size = 5, chunk_checksum = 111542825,
              chunk_extra = 5\<rparr>,
            \<lparr>stream_data = take 43 hello_archive @ bad_length_chunk, stream_pos = 59\<rparr>)"
    by code_simp
  have 4: "read_chunk_header (header_garbage env0 (stream_pos (inp (hello_open bad_compressed_chunk))))
             (inp (hello_open bad_compressed_chunk)) =
           (\<lparr>chunk_id = 17, chunk_options = 1, chunk_size = 5, chunk_checksum = 111542826,
              chunk_extra = 5\<rparr>,
            \<lparr>stream_data = take 43 hello_archive @ bad_compressed_chunk, stream_pos = 59\<rparr>)"
    by code_simp
  have e1: "integrity_error env0 (stream_pos (inp (hello_open bad_stored_chunk)))
      \<lparr>chunk_id = 17, chunk_options = 0, chunk_size = 5, chunk_checksum = 111542826, chunk_extra = 5\<rparr>
      ((hello_open bad_stored_chunk)
         \<lparr>inp := \<lparr>stream_data = take 43 hello_archive @ bad_stored_chunk, stream_pos = 59\<rparr>\<rparr>)"
    by code_simp
  have e2: "integrity_error env0 (stream_pos (inp (hello_open unknown_options_chunk)))
      \<lparr>chunk_id = 17, chunk_options = 2, chunk_size = 5, chunk_checksum = 111542825, chunk_extra = 5\<rparr>
      ((hello_open unknown_options_chunk)
         \<lparr>inp := \<lparr>stream_data = take 43 hello_archive @ unknown_options_chunk, stream_pos = 59\<rparr>\<rparr>)"
    by code_simp
  have e3: "integrity_error env0 (stream_pos (inp (hello_open bad_length_chunk)))
      \<lparr>chunk_id = 17, chunk_options = 1, chunk_size = 5, chunk_checksum = 111542825, chunk_extra = 5\<rparr>
      ((hello_open bad_length_chunk)
         \<lparr>inp := \<lparr>stream_data = take 43 hello_archive @ bad_length_chunk, stream_pos = 59\<rparr>\<rparr>)"
    by code_simp
  have e4: "integrity_error env0 (stream_pos (inp (hello_open bad_compressed_chunk)))
      \<lparr>chunk_id = 17, chunk_options = 1, chunk_size = 5, chunk_checksum = 111542826, chunk_extra = 5\<rparr>
      ((hello_open bad_compressed_chunk)
         \<lparr>inp := \<lparr>stream_data = take 43 hello_archive @ bad_compressed_chunk, stream_pos = 59\<rparr>\<rparr>)"
    by code_simp
  have w: "holds_payload \<lparr>stream_data = take 43 hello_archive @ bad_stored_chunk, stream_pos = 59\<rparr> 5"
    "holds_payload \<lparr>stream_data = take 43 hello_archive @ unknown_options_chunk, stream_pos = 59\<rparr> 5"
    "holds_payload \<lparr>stream_data = take 43 hello_archive @ bad_length_chunk, stream_pos = 59\<rparr> 5"
    "holds_payload \<lparr>stream_data = take 43 hello_archive @ bad_compressed_chunk, stream_pos = 59\<rparr> 5"
    by (simp_all add: holds_payload_def hello_archive_def bad_stored_chunk_def
          unknown_options_chunk_def bad_length_chunk_def bad_compressed_chunk_def)
  show ?thesis
    by (intro conjI inst [OF 1 _ _ e1 w(1)] inst [OF 2 _ _ e2 w(2)] inst [OF 3 _ _ e3 w(3)]
          inst [OF 4 _ _ e4 w(4)])
       simp_all
qed


text \<open>
  C2 as stated fails on two inputs. A compressed chunk with \<open>size = 0\<close> and a checksum that
  is not the checksum 1 of its empty payload, met before any compressed chunk: no buffer
  is asked for (\<open>0 > compressed_bufsize\<close> is false), and the test for a missing
  \<open>compressed_buffer\<close> ends the run in \<open>abort()\<close>, though every \<open>malloc\<close> would have
  succeeded. And a compressed chunk of which the stream holds the header only, behind
  a chunk with the same header: its payload is empty and has the checksum 1, not the
  announced 113181229, while \<open>compressed_buffer\<close> still holds the payload of the chunk
  before; the chunk passes, \<open>world\<close> is written a second time, and the file stays open.
\<close>

theorem compressed_error_not_abandoned:
  "read_chunk_header (header_garbage env0 43) (inp (hello_open empty_compressed_chunk)) =
     (\<lparr>chunk_id = 17, chunk_options = 1, chunk_size = 0, chunk_checksum = 0, chunk_extra = 5\<rparr>,
      \<lparr>stream_data = take 43 hello_archive @ empty_compressed_chunk, stream_pos = 59\<rparr>) \<and>
   chunk_payload \<lparr>stream_data = take 43 hello_archive @ empty_compressed_chunk, stream_pos = 59\<rparr> 0 = [] \<and>
   update_adler32 1 [] = 1 \<and>
   is_Abort (unpack_step env0 (hello_open empty_compressed_chunk)) \<and>
   fst (unpack_file env0 (Map.empty([97] \<mapsto> take 43 hello_archive @ empty_compressed_chunk)) [97]) =
     Aborted \<and>
   read_chunk_header (header_garbage env_literal 65) \<lparr>stream_data = repeated_archive, stream_pos = 65\<rparr> =
     (\<lparr>chunk_id = 17, chunk_options = 1, chunk_size = 6, chunk_checksum = 113181229, chunk_extra = 5\<rparr>,
      \<lparr>stream_data = repeated_archive, stream_pos = 81\<rparr>) \<and>
   chunk_payload \<lparr>stream_data = repeated_archive, stream_pos = 81\<rparr> 6 = [] \<and>
   fst (unpack_file env_literal (Map.empty([97] \<mapsto> repeated_archive)) [97]) = Returned 0 \<and>
   snd (unpack_file env_literal (Map.empty([97] \<mapsto> repeated_archive)) [97]) hello_name =
     Some [119, 111, 114, 108, 100, 119, 111, 114, 108, 100]"
  by code_simp

lemma stored_chunk_Continue:
  assumes "stored_chunk c st = Continue st'" and "f_out st = Some name"
    and "files st name = Some old"
  shows "total_extracted st' = total_extracted st + chunk_size c \<and>
         files st' = (files st)(name \<mapsto> old @ stored_payload st (chunk_size c))"
proof -
  from stored_chunk_result [of c st] assms(1)
  have t: "total_extracted st' = total_extracted st + chunk_size c"
    and f: "files st' = (if stored_payload st (chunk_size c) = [] then files st
                  else files (fwrite (stored_payload st (chunk_size c)) st))"
    by auto
  have "files st' = (files st)(name \<mapsto> old @ stored_payload st (chunk_size c))"
  proof (cases "stored_payload st (chunk_size c) = []")
    case True
    then show ?thesis using assms(3) by (auto simp: f)
  next
    case False
    then show ?thesis using assms(2,3) by (simp add: f fwrite_def)
  qed
  with t show ?thesis by simp
qed

lemma compressed_chunk_Continue:
  assumes "compressed_chunk e p c st = Continue st'" and "f_out st = Some name"
    and "files st name = Some old" and "chunk_options c = 1"
  shows "total_extracted st' = total_extracted st + chunk_extra c \<and>
         (\<exists>written. files st' = (files st)(name \<mapsto> old @ written) \<and>
            length written = (if data_chunk_error e p c st then 0 else unat (chunk_extra c)))"
proof -
  obtain cbuf where cb: "compressed_buffer (grow_buffers e p c st) = Some cbuf"
    using assms(1) by (auto simp: compressed_chunk_def Let_def split: option.splits)
  define err where "err \<longleftrightarrow>
     update_adler32 1 (payload_seen cbuf (inp st) (chunk_size c)) \<noteq> chunk_checksum c \<or>
     fst (decompress_call e c
            (store cbuf (fst (fread (unat (chunk_size c)) (inp st))))
            (decompressed_buffer (grow_buffers e p c st))) \<noteq> chunk_extra c"
  have de: "data_chunk_error e p c st \<longleftrightarrow> err"
    using assms(4) cb by (simp add: data_chunk_error_def err_def)
  show ?thesis
  proof (cases err)
    case True
    from compressed_chunk_error [OF cb True [unfolded err_def]] assms(1)
    have "files st' = files st" "total_extracted st' = total_extracted st + chunk_extra c"
      by auto
    moreover have "files st = (files st)(name \<mapsto> old @ [])"
      using assms(3) by auto
    ultimately show ?thesis
      using True de by (intro conjI exI [of _ "[]"]) simp_all
  next
    case False
    then have ok: "update_adler32 1 (payload_seen cbuf (inp st) (chunk_size c)) = chunk_checksum c"
      "fst (decompress_call e c
            (store cbuf (fst (fread (unat (chunk_size c)) (inp st))))
            (decompressed_buffer (grow_buffers e p c st))) = chunk_extra c"
      by (simp_all add: err_def)
    define st3 where "st3 = (grow_buffers e p c st)\<lparr>inp := snd (fread (unat (chunk_size c)) (inp st)),
        compressed_buffer := Some (store cbuf (fst (fread (unat (chunk_size c)) (inp st)))),
        total_extracted := total_extracted st + chunk_extra c\<rparr>"
    define dbuf1 where "dbuf1 = snd (decompress_call e c
            (store cbuf (fst (fread (unat (chunk_size c)) (inp st))))
            (decompressed_buffer (grow_buffers e p c st)))"
    have cc: "compressed_chunk e p c st =
        (case dbuf1 of
           None \<Rightarrow> Abort (st3\<lparr>decompressed_buffer := dbuf1\<rparr>)
         | Some dbuf \<Rightarrow>
             Continue (fwrite (map dbuf [0..<unat (chunk_extra c)])
                         (st3\<lparr>decompressed_buffer := dbuf1\<rparr>)))"
      unfolding st3_def dbuf1_def using cb ok
      by (simp add: compressed_chunk_def Let_def split_beta grow_buffers_frame cong: option.case_cong)
    from assms(1) obtain dbuf where d: "dbuf1 = Some dbuf"
      and st': "st' = fwrite (map dbuf [0..<unat (chunk_extra c)])
                         (st3\<lparr>decompressed_buffer := dbuf1\<rparr>)"
      unfolding cc by (cases dbuf1) simp_all
    have o: "f_out (st3\<lparr>decompressed_buffer := dbuf1\<rparr>) = Some name"
      "files (st3\<lparr>decompressed_buffer := dbuf1\<rparr>) = files st"
      "total_extracted (st3\<lparr>decompressed_buffer := dbuf1\<rparr>) = total_extracted st + chunk_extra c"
      using assms(2) by (simp_all add: st3_def grow_buffers_frame)
    have "files st' = (files st)(name \<mapsto> old @ map dbuf [0..<unat (chunk_extra c)])"
      using o assms(3) by (simp add: st' fwrite_def)
    moreover have "total_extracted st' = total_extracted st + chunk_extra c"
      by (simp add: st' fwrite_frame o)
    ultimately show ?thesis
      using False de by (intro conjI exI [of _ "map dbuf [0..<unat (chunk_extra c)]"]) simp_all
  qed
qed

lemma file_data_chunk_Continue:
  assumes "file_data_chunk e p c st = Continue st'" and "f_out st = Some name"
    and "files st name = Some old"
  shows "total_extracted st' = total_extracted st + data_chunk_count c \<and>
         (\<exists>written. files st' = (files st)(name \<mapsto> old @ written) \<and>
            length written = data_chunk_written e p c st)"
proof (cases "chunk_options c = 0")
  case True
  with assms(1) have "stored_chunk c st = Continue st'"
    by (simp add: file_data_chunk_def)
  from stored_chunk_Continue [OF this assms(2,3)] True show ?thesis
    by (auto simp: data_chunk_count_def data_chunk_written_def)
next
  case not0: False
  show ?thesis
  proof (cases "chunk_options c = 1")
    case True
    with assms(1) not0 have "compressed_chunk e p c st = Continue st'"
      by (simp add: file_data_chunk_def)
    from compressed_chunk_Continue [OF this assms(2,3) True] True not0 show ?thesis
      by (auto simp: data_chunk_count_def data_chunk_written_def)
  next
    case False
    with assms(1) not0 have "st' = abandon st"
      by (simp add: file_data_chunk_def)
    moreover have "files st = (files st)(name \<mapsto> old @ [])"
      using assms(3) by auto
    ultimately show ?thesis
      using False not0
      by (intro conjI exI [of _ "[]"])
         (simp_all add: data_chunk_count_def data_chunk_written_def abandon_frame)
  qed
qed

lemma file_entry_chunk_Continue_total:
  "file_entry_chunk e p c st = Continue st' \<Longrightarrow> total_extracted st' = 0"
  by (auto simp: file_entry_chunk_def Let_def split: prod.splits if_splits option.splits)

text \<open>
  C9, as amended. \<open>total_extracted\<close> is 0 after a pass over a file entry that passes its
  checksum. A pass over a data chunk for the open file adds the \<open>size\<close> of the header
  (stored chunk) or its \<open>extra\<close> (compressed chunk) to it, modulo \<open>2 ^ 64\<close>, whether or not the
  chunk passes its verification, and nothing for other \<open>options\<close>; the bytes written to the
  open file are counted by \<open>data_chunk_written\<close>. The two numbers agree for a stored chunk
  whose payload the stream holds in full, and for a compressed chunk without integrity
  error. A pass over any other chunk leaves \<open>total_extracted\<close> as it is.
\<close>

theorem total_extracted_accounting:
  assumes "read_chunk_header (header_garbage e (stream_pos (inp st))) (inp st) = (c, in1)"
    and "unpack_step e st = Continue st'"
  shows "(chunk_id c = 1 \<and> 10 < chunk_size c \<and> chunk_size c < BLOCK_SIZE \<longrightarrow>
            total_extracted st' = 0) \<and>
         (chunk_id c = 17 \<and> f_out st = Some name \<and> files st name = Some old \<and>
          output_file st \<noteq> None \<and> decompressed_size st \<noteq> 0 \<longrightarrow>
            total_extracted st' = total_extracted st + data_chunk_count c \<and>
            (\<exists>written. files st' = (files st)(name \<mapsto> old @ written) \<and>
               length written =
                 data_chunk_written e (stream_pos (inp st)) c (st\<lparr>inp := in1\<rparr>))) \<and>
         (chunk_options c = 0 \<and>
          stream_pos in1 + unat (chunk_size c) \<le> length (stream_data in1) \<longrightarrow>
            data_chunk_written e (stream_pos (inp st)) c (st\<lparr>inp := in1\<rparr>) =
              unat (data_chunk_count c)) \<and>
         (chunk_options c = 1 \<and>
          \<not> data_chunk_error e (stream_pos (inp st)) c (st\<lparr>inp := in1\<rparr>) \<longrightarrow>
            data_chunk_written e (stream_pos (inp st)) c (st\<lparr>inp := in1\<rparr>) =
              unat (data_chunk_count c)) \<and>
         (\<not> (chunk_id c = 1 \<and> 10 < chunk_size c \<and> chunk_size c < BLOCK_SIZE) \<and>
          \<not> (chunk_id c = 17 \<and> f_out st \<noteq> None \<and> output_file st \<noteq> None \<and>
             decompressed_size st \<noteq> 0) \<longrightarrow>
            total_extracted st' = total_extracted st)"
proof (intro conjI impI)
  note u = unpack_step_unfold [OF assms(1)]
  define p where "p = stream_pos (inp st)"
  define st0 where "st0 = st\<lparr>inp := in1\<rparr>"
  {
    assume a: "chunk_id c = 1 \<and> 10 < chunk_size c \<and> chunk_size c < BLOCK_SIZE"
    then obtain st1 where e: "file_entry_chunk e p c st0 = Continue st1"
      and s: "st' = st1\<lparr>inp := fseek_set (inp st1) (p + 16 + unat (chunk_size c))\<rparr>"
      using assms(2) unfolding u p_def [symmetric] st0_def [symmetric]
      by (cases "file_entry_chunk e p c st0") simp_all
    show "total_extracted st' = 0"
      using file_entry_chunk_Continue_total [OF e] by (simp add: s)
  }
  {
    assume a: "chunk_id c = 17 \<and> f_out st = Some name \<and> files st name = Some old \<and>
          output_file st \<noteq> None \<and> decompressed_size st \<noteq> 0"
    then obtain st2 where d: "file_data_chunk e p c st0 = Continue st2"
      and s: "st' = st2\<lparr>inp := fseek_set (inp st2) (p + 16 + unat (chunk_size c))\<rparr>"
      using assms(2) unfolding u p_def [symmetric] st0_def [symmetric]
      by (cases "file_data_chunk e p c st0") (simp_all add: st0_def)
    have o: "f_out st0 = Some name" "files st0 name = Some old"
      using a by (simp_all add: st0_def)
    from file_data_chunk_Continue [OF d o]
    have "total_extracted st2 = total_extracted st0 + data_chunk_count c"
      and "\<exists>written. files st2 = (files st0)(name \<mapsto> old @ written) \<and>
            length written = data_chunk_written e p c st0"
      by simp_all
    then show "total_extracted st' = total_extracted st + data_chunk_count c"
      and "\<exists>written. files st' = (files st)(name \<mapsto> old @ written) \<and>
               length written = data_chunk_written e (stream_pos (inp st)) c (st\<lparr>inp := in1\<rparr>)"
      by (simp_all add: s st0_def p_def)
  }
  {
    assume a: "chunk_options c = 0 \<and>
          stream_pos in1 + unat (chunk_size c) \<le> length (stream_data in1)"
    then show "data_chunk_written e (stream_pos (inp st)) c (st\<lparr>inp := in1\<rparr>) =
              unat (data_chunk_count c)"
      by (auto simp: data_chunk_written_def data_chunk_count_def stored_payload_def min_def)
  }
  {
    assume a: "chunk_options c = 1 \<and>
          \<not> data_chunk_error e (stream_pos (inp st)) c (st\<lparr>inp := in1\<rparr>)"
    then show "data_chunk_written e (stream_pos (inp st)) c (st\<lparr>inp := in1\<rparr>) =
              unat (data_chunk_count c)"
      by (simp add: data_chunk_written_def data_chunk_count_def)
  }
  {
    assume a: "\<not> (chunk_id c = 1 \<and> 10 < chunk_size c \<and> chunk_size c < BLOCK_SIZE) \<and>
          \<not> (chunk_id c = 17 \<and> f_out st \<noteq> None \<and> output_file st \<noteq> None \<and>
             decompressed_size st \<noteq> 0)"
    then have "st' = st0\<lparr>inp := fseek_set (inp st0) (p + 16 + unat (chunk_size c))\<rparr>"
      using assms(2) unfolding u p_def [symmetric] st0_def [symmetric]
      by (auto simp: st0_def split: if_splits)
    then show "total_extracted st' = total_extracted st"
      by (simp add: st0_def)
  }
qed

theorem total_extracted_accounting_witness:
  "total_extracted (next_state (unpack_step env0 hello_start)) = 0 \<and>
   total_extracted (next_state (unpack_step env0 (hello_open stored_world_chunk))) = 0 + 5 \<and>
   (\<exists>written. files (next_state (unpack_step env0 (hello_open stored_world_chunk))) =
       (files (hello_open stored_world_chunk))(hello_name \<mapsto> [] @ written) \<and>
       length written = 5)"
proof -
  define c1 where "c1 = \<lparr>chunk_id = 1, chunk_options = 0, chunk_size = 19,
      chunk_checksum = 314835889, chunk_extra = 0\<rparr>"
  define c2 where "c2 = \<lparr>chunk_id = 17, chunk_options = 0, chunk_size = 5,
      chunk_checksum = 111542825, chunk_extra = 5\<rparr>"
  define in1 where "in1 = \<lparr>stream_data = hello_archive, stream_pos = 24\<rparr>"
  define in2 where
    "in2 = \<lparr>stream_data = take 43 hello_archive @ stored_world_chunk, stream_pos = 59\<rparr>"
  have h1: "read_chunk_header (header_garbage env0 (stream_pos (inp hello_start)))
             (inp hello_start) = (c1, in1)"
    unfolding c1_def in1_def by code_simp
  have h2: "read_chunk_header
             (header_garbage env0 (stream_pos (inp (hello_open stored_world_chunk))))
             (inp (hello_open stored_world_chunk)) = (c2, in2)"
    unfolding c2_def in2_def by code_simp
  have "is_Continue (unpack_step env0 hello_start)"
    by code_simp
  then have s1: "unpack_step env0 hello_start = Continue (next_state (unpack_step env0 hello_start))"
    by simp
  have "is_Continue (unpack_step env0 (hello_open stored_world_chunk))"
    by code_simp
  then have s2: "unpack_step env0 (hello_open stored_world_chunk) =
      Continue (next_state (unpack_step env0 (hello_open stored_world_chunk)))"
    by simp
  have a1: "chunk_id c1 = 1 \<and> 10 < chunk_size c1 \<and> chunk_size c1 < BLOCK_SIZE"
    by (simp add: c1_def BLOCK_SIZE_def)
  have a2: "chunk_id c2 = 17 \<and> f_out (hello_open stored_world_chunk) = Some hello_name \<and>
      files (hello_open stored_world_chunk) hello_name = Some [] \<and>
      output_file (hello_open stored_world_chunk) \<noteq> None \<and>
      decompressed_size (hello_open stored_world_chunk) \<noteq> 0"
    by (simp add: c2_def hello_open_def)
  have a3: "chunk_options c2 = 0 \<and>
      stream_pos in2 + unat (chunk_size c2) \<le> length (stream_data in2)"
    by (simp add: c2_def in2_def stored_world_chunk_def hello_archive_def)
  have n: "data_chunk_count c2 = 5" "total_extracted (hello_open stored_world_chunk) = 0"
    by (simp_all add: data_chunk_count_def c2_def hello_open_def)
  show ?thesis
    using total_extracted_accounting [OF h1 s1, of hello_name "[]"] a1
      total_extracted_accounting [OF h2 s2, of hello_name "[]"] a2 a3
    by (auto simp: n)
qed

text \<open>
  C9 as stated fails at a compressed chunk whose checksum does not match: nothing is
  written to the open file, and \<open>total_extracted\<close> has grown by \<open>extra = 5\<close>.
\<close>

theorem total_extracted_counts_failed_chunk:
  "is_Continue (unpack_step env0 (hello_open bad_compressed_chunk)) \<and>
   files (next_state (unpack_step env0 (hello_open bad_compressed_chunk))) hello_name =
     files (hello_open bad_compressed_chunk) hello_name \<and>
   total_extracted (hello_open bad_compressed_chunk) = 0 \<and>
   total_extracted (next_state (unpack_step env0 (hello_open bad_compressed_chunk))) = 5"
  by code_simp

section \<open>A failed allocation\<close>

text \<open>
  With the compressed buffer there, the checksum right and no decompressed buffer
  (\<open>malloc\<close> has returned the null pointer, now or in an earlier pass),
  \<open>fastlz_decompress\<close> is called with the null pointer as its output, and the run goes on
  unless it returns \<open>extra\<close>: the test of \<open>decompressed_buffer\<close> comes after the call, in the
  branch of the expected length.
\<close>

lemma compressed_chunk_null_output:
  assumes "compressed_buffer (grow_buffers e p c st) = Some cbuf"
    and "decompressed_buffer (grow_buffers e p c st) = None"
    and "update_adler32 1 (payload_seen cbuf (inp st) (chunk_size c)) = chunk_checksum c"
  shows "if scast (fst (fastlz_decompress e
                (bytes_at (store cbuf (fst (fread (unat (chunk_size c)) (inp st))))
                   (ucast (chunk_size c)))
                (ucast (chunk_size c)) False (ucast (chunk_extra c)))) = chunk_extra c
         then is_Abort (compressed_chunk e p c st)
         else is_Continue (compressed_chunk e p c st) \<and>
              decompressed_buffer (next_state (compressed_chunk e p c st)) = None"
  using assms
  by (simp add: compressed_chunk_def decompress_call_def Let_def split_beta grow_buffers_frame
        abandon_def)

text \<open>
  C8 fails on the code. In a run in which \<open>malloc\<close> has no memory for the decompressed
  buffer, the pass over the compressed chunk does not abort: the decompressor is called
  without an output buffer, answers 0, the file is abandoned, the null buffer stays with
  its size recorded as 5, and \<open>unpack_file\<close> returns 0.
\<close>

theorem failed_allocation_goes_on:
  "malloc env_nomem Decompressed_buf 43 5 = None \<and>
   is_Continue (unpack_step env_nomem (hello_open bad_length_chunk)) \<and>
   decompressed_buffer (next_state (unpack_step env_nomem (hello_open bad_length_chunk))) = None \<and>
   decompressed_bufsize (next_state (unpack_step env_nomem (hello_open bad_length_chunk))) = 5 \<and>
   f_out (next_state (unpack_step env_nomem (hello_open bad_length_chunk))) = None \<and>
   fst (unpack_file env_nomem (Map.empty([97] \<mapsto> compressed_archive)) [97]) = Returned 0"
  by code_simp

end
